theory Spec2Isabelle
  imports Main "HOL-Library.Word"
begin

section \<open>Memory model\<close>

text \<open>
  The library of \<^verbatim>\<open>smart_pointers.cpp\<close> manipulates three kinds of storage: the managed
  objects (\<^verbatim>\<open>T\<close>), the reference counters (\<^verbatim>\<open>std::atomic<int>\<close>, one per control
  block) and the handle objects themselves. Each kind is a list indexed by address (or by
  handle identity); an entry is \<open>None\<close> once it has been deleted (or, for a handle, once
  its destructor has run). \<^verbatim>\<open>new\<close> appends a cell, so an address is never handed out twice.
  Undefined behaviour of the C++ program, and a call that throws where nothing catches, is a
  value of type \<open>fault\<close>.
  The members \<^verbatim>\<open>ptr_\<close>, \<^verbatim>\<open>refCount_\<close> and \<^verbatim>\<open>deleter_\<close> are written without the trailing
  underscore, which Isabelle reserves for internal names.
\<close>

type_synonym addr = nat

type_synonym int32 = "32 word"

datatype fault =
    NullDereference   \<comment> \<open>\<^verbatim>\<open>*p\<close> with \<^verbatim>\<open>p == nullptr\<close>\<close>
  | Dangling          \<comment> \<open>access to, or delete of, storage that is not live\<close>
  | BadFunctionCall   \<comment> \<open>call of an empty \<^verbatim>\<open>std::function\<close>\<close>
  | OutsideLifetime   \<comment> \<open>the program names a handle that does not exist (any more)\<close>

section \<open>UniquePtr\<close>

text \<open>
  The second template parameter of \<^verbatim>\<open>UniquePtr\<close> is any type with a default constructor
  and a call operator on \<^verbatim>\<open>T*\<close>. A deleter is therefore a callable value: given the pointer
  it acts on the world (the heap of objects and the lines printed on \<^verbatim>\<open>std::cout\<close>), or it
  faults. No constructor of \<^verbatim>\<open>UniquePtr\<close> takes a deleter: the member \<^verbatim>\<open>deleter_\<close> is
  default-constructed, so the operations that construct a handle take the default-constructed
  value \<open>D\<close> of the template argument as a parameter.
\<close>

record 'v world =
  heap :: "'v option list"
  cout :: "string list"

type_synonym 'v Deleter = "addr \<Rightarrow> 'v world \<Rightarrow> fault + 'v world"

text \<open>The expression \<^verbatim>\<open>delete ptr\<close> on a pointer that is not null: deleting what is not a
  live object (a second time, say) is undefined behaviour.\<close>

definition delete_expr :: "addr \<Rightarrow> 'v world \<Rightarrow> fault + 'v world" where
  "delete_expr p w =
     (if p < length (heap w) \<and> heap w ! p \<noteq> None
      then Inr (w\<lparr>heap := (heap w)[p := None]\<rparr>)
      else Inl Dangling)"

text \<open>\<^verbatim>\<open>std::default_delete<T>\<close>, the default template argument: its call is \<^verbatim>\<open>delete ptr\<close>.\<close>

definition default_delete :: "'v Deleter" where
  "default_delete p w = delete_expr p w"

text \<open>
  \<^verbatim>\<open>
  template <typename T>
  struct CustomDeleter {
      void operator()(T* ptr) {
          std::cout << "Custom deleter called" << std::endl;
          delete ptr;
      }
  };\<close>
\<close>

definition CustomDeleter :: "'v Deleter" where
  "CustomDeleter p w = delete_expr p (w\<lparr>cout := cout w @ [''Custom deleter called'']\<rparr>)"


record 'v UniquePtr =
  ptr :: "addr option"
  deleter :: "'v Deleter"

text \<open>The handles, the world, and the log of the calls \<^verbatim>\<open>deleter_(ptr_)\<close> that returned: the
  pointer of each call, in order.\<close>

record 'v ustate =
  unique :: "'v UniquePtr option list"
  calls :: "addr list"
  world :: "'v world"

definition unique_at :: "nat \<Rightarrow> 'v ustate \<Rightarrow> fault + 'v UniquePtr" where
  "unique_at i s =
     (if i < length (unique s)
      then (case unique s ! i of None \<Rightarrow> Inl OutsideLifetime | Some u \<Rightarrow> Inr u)
      else Inl OutsideLifetime)"

text \<open>\<^verbatim>\<open>explicit UniquePtr(T* ptr = nullptr) : ptr_(ptr) {}\<close>; the member \<^verbatim>\<open>deleter_\<close> is
  default-constructed. The new handle is the last one.\<close>

definition UniquePtr_ctor :: "'v Deleter \<Rightarrow> addr option \<Rightarrow> 'v ustate \<Rightarrow> 'v ustate" where
  "UniquePtr_ctor D p s = s\<lparr>unique := unique s @ [Some \<lparr>ptr = p, deleter = D\<rparr>]\<rparr>"

text \<open>\<^verbatim>\<open>void delete_() { if (ptr_) { deleter_(ptr_); ptr_ = nullptr; } }\<close> on handle \<open>i\<close>.\<close>

definition UniquePtr_delete :: "nat \<Rightarrow> 'v ustate \<Rightarrow> fault + 'v ustate" where
  "UniquePtr_delete i s =
     (case unique_at i s of
        Inl e \<Rightarrow> Inl e
      | Inr u \<Rightarrow>
          (case ptr u of
             None \<Rightarrow> Inr s
           | Some p \<Rightarrow>
               (case deleter u p (world s) of
                  Inl e \<Rightarrow> Inl e
                | Inr w \<Rightarrow>
                    Inr (s\<lparr>unique := (unique s)[i := Some (u\<lparr>ptr := None\<rparr>)],
                           calls := calls s @ [p],
                           world := w\<rparr>))))"

text \<open>\<^verbatim>\<open>~UniquePtr() { delete_(); }\<close>, after which the handle is gone.\<close>

definition UniquePtr_dtor :: "nat \<Rightarrow> 'v ustate \<Rightarrow> fault + 'v ustate" where
  "UniquePtr_dtor i s =
     (case UniquePtr_delete i s of
        Inl e \<Rightarrow> Inl e
      | Inr s1 \<Rightarrow> Inr (s1\<lparr>unique := (unique s1)[i := None]\<rparr>))"

text \<open>\<^verbatim>\<open>UniquePtr(UniquePtr&& other) : ptr_(other.ptr_) { other.ptr_ = nullptr; }\<close>;
  \<^verbatim>\<open>deleter_\<close> is not in the initialiser list, so it is default-constructed.\<close>

definition UniquePtr_move_ctor :: "'v Deleter \<Rightarrow> nat \<Rightarrow> 'v ustate \<Rightarrow> fault + 'v ustate" where
  "UniquePtr_move_ctor D other s =
     (case unique_at other s of
        Inl e \<Rightarrow> Inl e
      | Inr u \<Rightarrow>
          Inr (s\<lparr>unique := (unique s)[other := Some (u\<lparr>ptr := None\<rparr>)]
                             @ [Some \<lparr>ptr = ptr u, deleter = D\<rparr>]\<rparr>))"

text \<open>
  \<^verbatim>\<open>
  UniquePtr& operator=(UniquePtr&& other) {
      if (this != &other) { delete_(); ptr_ = other.ptr_; other.ptr_ = nullptr; }
      return *this;
  }\<close>
\<close>

definition UniquePtr_move_assign :: "nat \<Rightarrow> nat \<Rightarrow> 'v ustate \<Rightarrow> fault + 'v ustate" where
  "UniquePtr_move_assign this other s =
     (case unique_at this s of
        Inl e \<Rightarrow> Inl e
      | Inr _ \<Rightarrow>
          (case unique_at other s of
             Inl e \<Rightarrow> Inl e
           | Inr _ \<Rightarrow>
               if this \<noteq> other then
                 (case UniquePtr_delete this s of
                    Inl e \<Rightarrow> Inl e
                  | Inr s1 \<Rightarrow>
                      (case unique_at this s1 of
                         Inl e \<Rightarrow> Inl e
                       | Inr t \<Rightarrow>
                           (case unique_at other s1 of
                              Inl e \<Rightarrow> Inl e
                            | Inr u \<Rightarrow>
                                Inr (s1\<lparr>unique := (unique s1)
                                          [this := Some (t\<lparr>ptr := ptr u\<rparr>),
                                           other := Some (u\<lparr>ptr := None\<rparr>)]\<rparr>))))
               else Inr s))"


text \<open>A program over handles of one instantiation \<^verbatim>\<open>UniquePtr<T, Deleter>\<close>: copying is
  deleted, so these are all the operations that create, change or end a handle.\<close>

datatype uop =
    UConstruct "addr option"
  | UMoveConstruct nat
  | UMoveAssign nat nat
  | UDestroy nat

fun ustep :: "'v Deleter \<Rightarrow> uop \<Rightarrow> 'v ustate \<Rightarrow> fault + 'v ustate" where
  "ustep D (UConstruct p) s = Inr (UniquePtr_ctor D p s)"
| "ustep D (UMoveConstruct other) s = UniquePtr_move_ctor D other s"
| "ustep D (UMoveAssign this other) s = UniquePtr_move_assign this other s"
| "ustep D (UDestroy i) s = UniquePtr_dtor i s"

fun urun :: "'v Deleter \<Rightarrow> uop list \<Rightarrow> 'v ustate \<Rightarrow> fault + 'v ustate" where
  "urun D [] s = Inr s"
| "urun D (x # xs) s = (case ustep D x s of Inl e \<Rightarrow> Inl e | Inr s1 \<Rightarrow> urun D xs s1)"

text \<open>A state with the given objects on the heap, nothing printed, and no handle yet.\<close>

definition ustart :: "'v option list \<Rightarrow> 'v ustate" where
  "ustart objs = \<lparr>unique = [], calls = [], world = \<lparr>heap = objs, cout = []\<rparr>\<rparr>"

text \<open>The raw pointers a program hands to constructors, the objects some live handle owns,
  and how often the deleter was called on an object.\<close>

fun raw_pointers :: "uop list \<Rightarrow> addr list" where
  "raw_pointers [] = []"
| "raw_pointers (UConstruct (Some p) # xs) = p # raw_pointers xs"
| "raw_pointers (_ # xs) = raw_pointers xs"

definition owns :: "addr \<Rightarrow> 'v UniquePtr option \<Rightarrow> bool" where
  "owns p h = (case h of None \<Rightarrow> False | Some u \<Rightarrow> ptr u = Some p)"

definition owners :: "'v ustate \<Rightarrow> addr \<Rightarrow> nat" where
  "owners s p = length (filter (owns p) (unique s))"


section \<open>SharedPtr and WeakPtr\<close>

record SharedPtr =
  ptr :: "addr option"
  refCount :: "addr option"

record WeakPtr =
  ptr :: "addr option"
  refCount :: "addr option"

record 'v state =
  objects :: "'v option list"
  counts :: "int32 option list"
  shared :: "SharedPtr option list"
  weak :: "WeakPtr option list"

text \<open>The counter stored in the control block at address \<open>a\<close>, if that block is live.\<close>

definition strong_count :: "'v state \<Rightarrow> addr \<Rightarrow> int32 option" where
  "strong_count s a = (if a < length (counts s) then counts s ! a else None)"

text \<open>\<^verbatim>\<open>(*refCount_)++\<close>\<close>

definition increment :: "addr option \<Rightarrow> 'v state \<Rightarrow> fault + 'v state" where
  "increment r s =
     (case r of
        None \<Rightarrow> Inl NullDereference
      | Some a \<Rightarrow>
          (case strong_count s a of
             None \<Rightarrow> Inl Dangling
           | Some c \<Rightarrow> Inr (s\<lparr>counts := (counts s)[a := Some (c + 1)]\<rparr>)))"

text \<open>\<^verbatim>\<open>delete ptr_\<close>: nothing for the null pointer.\<close>

definition delete_object :: "addr option \<Rightarrow> 'v state \<Rightarrow> fault + 'v state" where
  "delete_object p s =
     (case p of
        None \<Rightarrow> Inr s
      | Some a \<Rightarrow>
          if a < length (objects s) \<and> objects s ! a \<noteq> None
          then Inr (s\<lparr>objects := (objects s)[a := None]\<rparr>)
          else Inl Dangling)"

text \<open>
  \<^verbatim>\<open>
  void decrementAndDelete() {
      if (--(*refCount_) == 0) { delete ptr_; delete refCount_; }
  }\<close>
\<close>

definition decrementAndDelete :: "SharedPtr \<Rightarrow> 'v state \<Rightarrow> fault + 'v state" where
  "decrementAndDelete h s =
     (case SharedPtr.refCount h of
        None \<Rightarrow> Inl NullDereference
      | Some a \<Rightarrow>
          (case strong_count s a of
             None \<Rightarrow> Inl Dangling
           | Some c \<Rightarrow>
               if c - 1 = 0 then
                 (case delete_object (SharedPtr.ptr h)
                         (s\<lparr>counts := (counts s)[a := Some (c - 1)]\<rparr>) of
                    Inl e \<Rightarrow> Inl e
                  | Inr s2 \<Rightarrow> Inr (s2\<lparr>counts := (counts s2)[a := None]\<rparr>))
               else Inr (s\<lparr>counts := (counts s)[a := Some (c - 1)]\<rparr>)))"

definition shared_at :: "nat \<Rightarrow> 'v state \<Rightarrow> fault + SharedPtr" where
  "shared_at i s =
     (if i < length (shared s)
      then (case shared s ! i of None \<Rightarrow> Inl OutsideLifetime | Some h \<Rightarrow> Inr h)
      else Inl OutsideLifetime)"

text \<open>\<^verbatim>\<open>explicit SharedPtr(T* ptr = nullptr) : ptr_(ptr), refCount_(new std::atomic<int>(1)) {}\<close>\<close>

definition SharedPtr_ctor :: "addr option \<Rightarrow> 'v state \<Rightarrow> 'v state" where
  "SharedPtr_ctor p s =
     s\<lparr>counts := counts s @ [Some 1],
       shared := shared s
         @ [Some \<lparr>SharedPtr.ptr = p, SharedPtr.refCount = Some (length (counts s))\<rparr>]\<rparr>"

text \<open>\<^verbatim>\<open>SharedPtr(const SharedPtr& other) : ptr_(other.ptr_), refCount_(other.refCount_)
  { (*refCount_)++; }\<close>\<close>

definition SharedPtr_copy_ctor :: "nat \<Rightarrow> 'v state \<Rightarrow> fault + 'v state" where
  "SharedPtr_copy_ctor other s =
     (case shared_at other s of
        Inl e \<Rightarrow> Inl e
      | Inr h \<Rightarrow>
          increment (SharedPtr.refCount h) (s\<lparr>shared := shared s @ [Some h]\<rparr>))"

text \<open>
  \<^verbatim>\<open>
  SharedPtr& operator=(const SharedPtr& other) {
      if (this != &other) {
          decrementAndDelete();
          ptr_ = other.ptr_; refCount_ = other.refCount_; (*refCount_)++;
      }
      return *this;
  }\<close>
\<close>

definition SharedPtr_copy_assign :: "nat \<Rightarrow> nat \<Rightarrow> 'v state \<Rightarrow> fault + 'v state" where
  "SharedPtr_copy_assign this other s =
     (case shared_at this s of
        Inl e \<Rightarrow> Inl e
      | Inr t \<Rightarrow>
          (case shared_at other s of
             Inl e \<Rightarrow> Inl e
           | Inr _ \<Rightarrow>
               if this \<noteq> other then
                 (case decrementAndDelete t s of
                    Inl e \<Rightarrow> Inl e
                  | Inr s1 \<Rightarrow>
                      (case shared_at other s1 of
                         Inl e \<Rightarrow> Inl e
                       | Inr h \<Rightarrow>
                           increment (SharedPtr.refCount h)
                             (s1\<lparr>shared := (shared s1)[this := Some h]\<rparr>)))
               else Inr s))"

text \<open>\<^verbatim>\<open>SharedPtr(SharedPtr&& other) : ptr_(other.ptr_), refCount_(other.refCount_)
  { other.ptr_ = nullptr; other.refCount_ = nullptr; }\<close>\<close>

definition SharedPtr_move_ctor :: "nat \<Rightarrow> 'v state \<Rightarrow> fault + 'v state" where
  "SharedPtr_move_ctor other s =
     (case shared_at other s of
        Inl e \<Rightarrow> Inl e
      | Inr h \<Rightarrow>
          Inr (s\<lparr>shared := (shared s)
                    [other := Some \<lparr>SharedPtr.ptr = None, SharedPtr.refCount = None\<rparr>]
                  @ [Some h]\<rparr>))"

text \<open>
  \<^verbatim>\<open>
  SharedPtr& operator=(SharedPtr&& other) {
      if (this != &other) {
          decrementAndDelete();
          ptr_ = other.ptr_; refCount_ = other.refCount_;
          other.ptr_ = nullptr; other.refCount_ = nullptr;
      }
      return *this;
  }\<close>
\<close>

definition SharedPtr_move_assign :: "nat \<Rightarrow> nat \<Rightarrow> 'v state \<Rightarrow> fault + 'v state" where
  "SharedPtr_move_assign this other s =
     (case shared_at this s of
        Inl e \<Rightarrow> Inl e
      | Inr t \<Rightarrow>
          (case shared_at other s of
             Inl e \<Rightarrow> Inl e
           | Inr _ \<Rightarrow>
               if this \<noteq> other then
                 (case decrementAndDelete t s of
                    Inl e \<Rightarrow> Inl e
                  | Inr s1 \<Rightarrow>
                      (case shared_at other s1 of
                         Inl e \<Rightarrow> Inl e
                       | Inr h \<Rightarrow>
                           Inr (s1\<lparr>shared := (shared s1)
                                  [this := Some h,
                                   other := Some \<lparr>SharedPtr.ptr = None,
                                                  SharedPtr.refCount = None\<rparr>]\<rparr>)))
               else Inr s))"

text \<open>\<^verbatim>\<open>~SharedPtr() { decrementAndDelete(); }\<close>, after which the handle is gone.\<close>

definition SharedPtr_dtor :: "nat \<Rightarrow> 'v state \<Rightarrow> fault + 'v state" where
  "SharedPtr_dtor this s =
     (case shared_at this s of
        Inl e \<Rightarrow> Inl e
      | Inr t \<Rightarrow>
          (case decrementAndDelete t s of
             Inl e \<Rightarrow> Inl e
           | Inr s1 \<Rightarrow> Inr (s1\<lparr>shared := (shared s1)[this := None]\<rparr>)))"

text \<open>\<^verbatim>\<open>int use_count() const { return *refCount_; }\<close>\<close>

definition use_count :: "nat \<Rightarrow> 'v state \<Rightarrow> fault + int" where
  "use_count this s =
     (case shared_at this s of
        Inl e \<Rightarrow> Inl e
      | Inr t \<Rightarrow>
          (case SharedPtr.refCount t of
             None \<Rightarrow> Inl NullDereference
           | Some a \<Rightarrow>
               (case strong_count s a of
                  None \<Rightarrow> Inl Dangling
                | Some c \<Rightarrow> Inr (sint c))))"

text \<open>\<^verbatim>\<open>T* get() const { return ptr_; }\<close>\<close>

definition SharedPtr_get :: "nat \<Rightarrow> 'v state \<Rightarrow> fault + addr option" where
  "SharedPtr_get this s =
     (case shared_at this s of Inl e \<Rightarrow> Inl e | Inr t \<Rightarrow> Inr (SharedPtr.ptr t))"

subsection \<open>Programs over SharedPtr handles\<close>

datatype sop =
    Construct "addr option"
  | CopyConstruct nat
  | CopyAssign nat nat
  | MoveConstruct nat
  | MoveAssign nat nat
  | Destroy nat

fun step :: "sop \<Rightarrow> 'v state \<Rightarrow> fault + 'v state" where
  "step (Construct p) s = Inr (SharedPtr_ctor p s)"
| "step (CopyConstruct other) s = SharedPtr_copy_ctor other s"
| "step (CopyAssign this other) s = SharedPtr_copy_assign this other s"
| "step (MoveConstruct other) s = SharedPtr_move_ctor other s"
| "step (MoveAssign this other) s = SharedPtr_move_assign this other s"
| "step (Destroy this) s = SharedPtr_dtor this s"

fun run :: "sop list \<Rightarrow> 'v state \<Rightarrow> fault + 'v state" where
  "run [] s = Inr s"
| "run (x # xs) s = (case step x s of Inl e \<Rightarrow> Inl e | Inr s1 \<Rightarrow> run xs s1)"

text \<open>A state with the given objects on the heap and no handle and no control block yet.\<close>

definition start :: "'v option list \<Rightarrow> 'v state" where
  "start objs = \<lparr>objects = objs, counts = [], shared = [], weak = []\<rparr>"

text \<open>The number of live SharedPtr handles whose \<^verbatim>\<open>refCount_\<close> is the block at \<open>a\<close>.\<close>

definition attached_to :: "addr \<Rightarrow> SharedPtr option \<Rightarrow> bool" where
  "attached_to a h = (case h of None \<Rightarrow> False | Some x \<Rightarrow> SharedPtr.refCount x = Some a)"

definition attached :: "'v state \<Rightarrow> addr \<Rightarrow> nat" where
  "attached s a = length (filter (attached_to a) (shared s))"

subsection \<open>WeakPtr\<close>

definition weak_at :: "nat \<Rightarrow> 'v state \<Rightarrow> fault + WeakPtr" where
  "weak_at i s =
     (if i < length (weak s)
      then (case weak s ! i of None \<Rightarrow> Inl OutsideLifetime | Some w \<Rightarrow> Inr w)
      else Inl OutsideLifetime)"

text \<open>\<^verbatim>\<open>WeakPtr() : ptr_(nullptr), refCount_(nullptr) {}\<close>\<close>

definition WeakPtr_ctor :: "'v state \<Rightarrow> 'v state" where
  "WeakPtr_ctor s =
     s\<lparr>weak := weak s @ [Some \<lparr>WeakPtr.ptr = None, WeakPtr.refCount = None\<rparr>]\<rparr>"

text \<open>\<^verbatim>\<open>WeakPtr(const SharedPtr<T>& other) : ptr_(other.ptr_), refCount_(other.refCount_) {}\<close>\<close>

definition WeakPtr_from_shared :: "nat \<Rightarrow> 'v state \<Rightarrow> fault + 'v state" where
  "WeakPtr_from_shared other s =
     (case shared_at other s of
        Inl e \<Rightarrow> Inl e
      | Inr h \<Rightarrow>
          Inr (s\<lparr>weak := weak s
                 @ [Some \<lparr>WeakPtr.ptr = SharedPtr.ptr h,
                           WeakPtr.refCount = SharedPtr.refCount h\<rparr>]\<rparr>))"

text \<open>\<^verbatim>\<open>WeakPtr(const WeakPtr& other) : ptr_(other.ptr_), refCount_(other.refCount_) {}\<close>\<close>

definition WeakPtr_copy_ctor :: "nat \<Rightarrow> 'v state \<Rightarrow> fault + 'v state" where
  "WeakPtr_copy_ctor other s =
     (case weak_at other s of
        Inl e \<Rightarrow> Inl e
      | Inr w \<Rightarrow> Inr (s\<lparr>weak := weak s @ [Some w]\<rparr>))"

text \<open>\<^verbatim>\<open>WeakPtr& operator=(const WeakPtr& other)
  { ptr_ = other.ptr_; refCount_ = other.refCount_; return *this; }\<close>\<close>

definition WeakPtr_copy_assign :: "nat \<Rightarrow> nat \<Rightarrow> 'v state \<Rightarrow> fault + 'v state" where
  "WeakPtr_copy_assign this other s =
     (case weak_at this s of
        Inl e \<Rightarrow> Inl e
      | Inr _ \<Rightarrow>
          (case weak_at other s of
             Inl e \<Rightarrow> Inl e
           | Inr w \<Rightarrow> Inr (s\<lparr>weak := (weak s)[this := Some w]\<rparr>)))"

text \<open>WeakPtr declares no destructor: the implicit one ends the handle and does nothing else.\<close>

definition WeakPtr_dtor :: "nat \<Rightarrow> 'v state \<Rightarrow> fault + 'v state" where
  "WeakPtr_dtor this s =
     (case weak_at this s of
        Inl e \<Rightarrow> Inl e
      | Inr _ \<Rightarrow> Inr (s\<lparr>weak := (weak s)[this := None]\<rparr>))"

text \<open>\<^verbatim>\<open>bool expired() const { return refCount_ == nullptr || *refCount_ == 0; }\<close>\<close>

definition expired :: "nat \<Rightarrow> 'v state \<Rightarrow> fault + bool" where
  "expired this s =
     (case weak_at this s of
        Inl e \<Rightarrow> Inl e
      | Inr w \<Rightarrow>
          (case WeakPtr.refCount w of
             None \<Rightarrow> Inr True
           | Some a \<Rightarrow>
               (case strong_count s a of
                  None \<Rightarrow> Inl Dangling
                | Some c \<Rightarrow> Inr (c = 0))))"

text \<open>
  \<^verbatim>\<open>
  SharedPtr<T> lock() const {
      if (!expired()) { return SharedPtr<T>(*this); }
      return SharedPtr<T>();
  }\<close>
  SharedPtr declares no constructor that takes a WeakPtr, so the conversion
  \<^verbatim>\<open>SharedPtr<T>(*this)\<close> is the parameter \<open>from_weak\<close>. The result is the newest
  SharedPtr handle of the returned state.
\<close>

definition lock ::
  "(WeakPtr \<Rightarrow> 'v state \<Rightarrow> fault + 'v state) \<Rightarrow> nat \<Rightarrow> 'v state \<Rightarrow> fault + 'v state" where
  "lock from_weak this s =
     (case expired this s of
        Inl e \<Rightarrow> Inl e
      | Inr b \<Rightarrow>
          if \<not> b then
            (case weak_at this s of Inl e \<Rightarrow> Inl e | Inr w \<Rightarrow> from_weak w s)
          else Inr (SharedPtr_ctor None s))"

text \<open>The number of live WeakPtr handles whose \<^verbatim>\<open>refCount_\<close> is the block at \<open>a\<close>.\<close>

definition observes :: "addr \<Rightarrow> WeakPtr option \<Rightarrow> bool" where
  "observes a h = (case h of None \<Rightarrow> False | Some w \<Rightarrow> WeakPtr.refCount w = Some a)"

definition weak_attached :: "'v state \<Rightarrow> addr \<Rightarrow> nat" where
  "weak_attached s a = length (filter (observes a) (weak s))"

subsection \<open>make_shared\<close>

text \<open>
  \<^verbatim>\<open>
  template <typename T, typename... Args>
  SharedPtr<T> make_shared(Args&&... args) {
      return SharedPtr<T>(new T(std::forward<Args>(args)...));
  }\<close>
  An argument expression is an lvalue or an rvalue; \<^verbatim>\<open>std::forward<Args>\<close> hands an lvalue on
  as an lvalue (\<^verbatim>\<open>Args\<close> is \<^verbatim>\<open>U&\<close>) and an rvalue as an rvalue (\<^verbatim>\<open>Args\<close> is \<^verbatim>\<open>U\<close>).
  The constructor of \<^verbatim>\<open>T\<close> is the parameter \<open>T\<close>: it maps the arguments, with their value
  categories, to the state of the new object.
\<close>

datatype 'a arg = Lvalue 'a | Rvalue 'a

fun forward :: "'a arg \<Rightarrow> 'a arg" where
  "forward (Lvalue x) = Lvalue x"
| "forward (Rvalue x) = Rvalue x"

definition make_shared :: "('a arg list \<Rightarrow> 'v) \<Rightarrow> 'a arg list \<Rightarrow> 'v state \<Rightarrow> 'v state" where
  "make_shared T args s =
     SharedPtr_ctor (Some (length (objects s)))
       (s\<lparr>objects := objects s @ [Some (T (map forward args))]\<rparr>)"

subsection \<open>Sequencing\<close>

definition and_then :: "fault + 'a \<Rightarrow> ('a \<Rightarrow> fault + 'b) \<Rightarrow> fault + 'b" where
  "and_then r f = (case r of Inl e \<Rightarrow> Inl e | Inr x \<Rightarrow> f x)"

subsection \<open>Programs over SharedPtr and WeakPtr handles\<close>

text \<open>The events in the life of a WeakPtr handle: its constructors, its copy assignment
  and the end of its lifetime.\<close>

datatype wop =
    WDefault
  | WFromShared nat
  | WCopy nat
  | WAssign nat nat
  | WDestroy nat

fun wstep :: "wop \<Rightarrow> 'v state \<Rightarrow> fault + 'v state" where
  "wstep WDefault s = Inr (WeakPtr_ctor s)"
| "wstep (WFromShared other) s = WeakPtr_from_shared other s"
| "wstep (WCopy other) s = WeakPtr_copy_ctor other s"
| "wstep (WAssign this other) s = WeakPtr_copy_assign this other s"
| "wstep (WDestroy this) s = WeakPtr_dtor this s"

datatype pop = OnShared sop | OnWeak wop

fun pstep :: "pop \<Rightarrow> 'v state \<Rightarrow> fault + 'v state" where
  "pstep (OnShared x) s = step x s"
| "pstep (OnWeak w) s = wstep w s"

fun prun :: "pop list \<Rightarrow> 'v state \<Rightarrow> fault + 'v state" where
  "prun [] s = Inr s"
| "prun (x # xs) s = (case pstep x s of Inl e \<Rightarrow> Inl e | Inr s1 \<Rightarrow> prun xs s1)"

section \<open>Invariants\<close>

text \<open>What a control block records: its counter read as a signed number, and nothing once
  the block is released.\<close>

definition owners_recorded :: "int32 option \<Rightarrow> int" where
  "owners_recorded v = (case v of None \<Rightarrow> 0 | Some c \<Rightarrow> sint c)"

definition counts_agree :: "'v state \<Rightarrow> bool" where
  "counts_agree s =
     (\<forall>a. int (attached s a) = owners_recorded (strong_count s a)
          \<and> strong_count s a \<noteq> Some 0)"

definition unattached :: "SharedPtr option \<Rightarrow> bool" where
  "unattached v = (\<forall>b. \<not> attached_to b v)"

text \<open>From \<open>s\<close> to \<open>s1\<close> no control block disappears and no released block comes back.\<close>

definition keeps_released :: "'v state \<Rightarrow> 'v state \<Rightarrow> bool" where
  "keeps_released s s1 =
     (length (counts s) \<le> length (counts s1)
      \<and> (\<forall>a. a < length (counts s) \<longrightarrow> strong_count s a = None \<longrightarrow> strong_count s1 a = None))"



definition stores :: "'v Deleter \<Rightarrow> 'v UniquePtr option \<Rightarrow> bool" where
  "stores D h = (case h of None \<Rightarrow> True | Some u \<Rightarrow> deleter u = D)"

definition uniform :: "'v Deleter \<Rightarrow> 'v ustate \<Rightarrow> bool" where
  "uniform D s =
     (list_all (stores D) (unique s)
      \<and> (D = CustomDeleter \<longrightarrow>
            cout (world s) = replicate (length (calls s)) ''Custom deleter called''))"

text \<open>An object that \<^verbatim>\<open>delete\<close> may be given, a deleter that deletes every such object, and
  the states in which every owned object, and every object still to be handed to a
  constructor, is such an object with at most one owner.\<close>

definition live_object :: "'v world \<Rightarrow> addr \<Rightarrow> bool" where
  "live_object w p = (p < length (heap w) \<and> heap w ! p \<noteq> None)"

definition deletes :: "'v Deleter \<Rightarrow> bool" where
  "deletes D =
     (\<forall>p w. live_object w p \<longrightarrow> (\<exists>w1. D p w = Inr w1 \<and> heap w1 = (heap w)[p := None]))"

definition owned_live :: "'v ustate \<Rightarrow> addr list \<Rightarrow> bool" where
  "owned_live s fut =
     (\<forall>p. owners s p \<le> 1
          \<and> (0 < owners s p \<longrightarrow> live_object (world s) p)
          \<and> (p \<in> set fut \<longrightarrow> owners s p = 0 \<and> live_object (world s) p))"

section \<open>Arithmetic of the counter and of counting in lists\<close>

lemma sint_succ:
  fixes c :: int32
  assumes "sint c = int n" "n + 1 < 2 ^ 31"
  shows "sint (c + 1) = int n + 1"
proof -
  have "sint (c + 1) = signed_take_bit 31 (sint c + 1)"
    by (simp add: sint_word_ariths)
  also have "\<dots> = sint c + 1"
    using assms by (intro signed_take_bit_int_eq_self) auto
  finally show ?thesis using assms by simp
qed

lemma sint_pred:
  fixes c :: int32
  assumes "sint c = int n" "1 \<le> n"
  shows "sint (c - 1) = int n - 1"
proof -
  have "sint c < 2 ^ 31" using sint_lt [of c] by simp
  have "sint (c - 1) = signed_take_bit 31 (sint c - 1)"
    by (simp add: sint_word_ariths)
  also have "\<dots> = sint c - 1"
    using assms \<open>sint c < 2 ^ 31\<close> by (intro signed_take_bit_int_eq_self) auto
  finally show ?thesis using assms by simp
qed

lemma pred_zero:
  fixes c :: int32
  assumes "sint c = int n"
  shows "c - 1 = 0 \<longleftrightarrow> n = 1"
proof -
  have "c - 1 = 0 \<longleftrightarrow> c = 1" by auto
  also have "\<dots> \<longleftrightarrow> sint c = sint (1 :: int32)" by (rule word_eq_iff_signed)
  also have "\<dots> \<longleftrightarrow> n = 1" using assms by simp
  finally show ?thesis .
qed

lemma length_filter_update:
  "i < length xs \<Longrightarrow>
     length (filter P (xs[i := v])) + (if P (xs ! i) then 1 else 0)
       = length (filter P xs) + (if P v then 1 else 0)"
proof (induction xs arbitrary: i)
  case Nil
  then show ?case by simp
next
  case (Cons x xs)
  then show ?case by (cases i) auto
qed

section \<open>The strong count and the attached handles\<close>

lemma unattached_simps [simp]:
  "unattached None"
  "unattached (Some \<lparr>SharedPtr.ptr = p, SharedPtr.refCount = None\<rparr>)"
  by (simp_all add: unattached_def attached_to_def)

lemma strong_count_shared [simp]:
  "strong_count (s\<lparr>shared := x\<rparr>) a = strong_count s a"
  by (simp add: strong_count_def)

lemma strong_count_cong:
  "counts s1 = counts s \<Longrightarrow> strong_count s1 a = strong_count s a"
  by (simp add: strong_count_def)

lemma attached_le: "attached s a \<le> length (shared s)"
  by (simp add: attached_def)

lemma attached_cong:
  "shared s1 = shared s \<Longrightarrow> attached s1 a = attached s a"
  by (simp add: attached_def)

lemma attached_update:
  "i < length (shared s) \<Longrightarrow>
     attached (s\<lparr>shared := (shared s)[i := v]\<rparr>) a + (if attached_to a (shared s ! i) then 1 else 0)
       = attached s a + (if attached_to a v then 1 else 0)"
  using length_filter_update [of i "shared s" "attached_to a" v]
  by (simp add: attached_def)

lemma attached_append:
  "attached (s\<lparr>shared := shared s @ [v]\<rparr>) a = attached s a + (if attached_to a v then 1 else 0)"
  by (simp add: attached_def)

lemma decrementAndDelete_Inr:
  assumes "decrementAndDelete h s = Inr s1"
  obtains a c where "SharedPtr.refCount h = Some a" "strong_count s a = Some c"
    "counts s1 = (counts s)[a := (if c - 1 = 0 then None else Some (c - 1))]"
    "shared s1 = shared s" "weak s1 = weak s"
  using assms
  by (auto simp: decrementAndDelete_def delete_object_def
           split: option.splits if_splits sum.splits)

lemma increment_Inr:
  assumes "increment r s = Inr s1"
  obtains a c where "r = Some a" "strong_count s a = Some c"
    "counts s1 = (counts s)[a := Some (c + 1)]"
    "shared s1 = shared s" "weak s1 = weak s" "objects s1 = objects s"
  using assms
  by (auto simp: increment_def split: option.splits)

lemma strong_count_update:
  "counts s1 = (counts s)[a := v] \<Longrightarrow> strong_count s a = Some c \<Longrightarrow>
     strong_count s1 b = (if b = a then v else strong_count s b)"
  by (auto simp: strong_count_def split: if_splits)

lemma shared_at_Inr:
  "shared_at i s = Inr h \<longleftrightarrow> i < length (shared s) \<and> shared s ! i = Some h"
  by (auto simp: shared_at_def split: option.splits)

lemma counts_agreeD:
  "counts_agree s \<Longrightarrow> strong_count s a = Some c \<Longrightarrow> sint c = int (attached s a)"
  by (simp add: counts_agree_def owners_recorded_def)

text \<open>Releasing handle i's share and leaving an unattached value in its place.\<close>

lemma detach_agree:
  assumes inv: "counts_agree s"
    and h: "shared_at i s = Inr h"
    and d: "decrementAndDelete h s = Inr s1"
    and v: "unattached v"
  shows "counts_agree (s1\<lparr>shared := (shared s1)[i := v]\<rparr>)"
proof -
  from d obtain a c where a: "SharedPtr.refCount h = Some a" "strong_count s a = Some c"
    and c1: "counts s1 = (counts s)[a := (if c - 1 = 0 then None else Some (c - 1))]"
    and sh: "shared s1 = shared s"
    by (rule decrementAndDelete_Inr)
  from h have i: "i < length (shared s)" "shared s ! i = Some h"
    by (simp_all add: shared_at_Inr)
  let ?s2 = "s1\<lparr>shared := (shared s1)[i := v]\<rparr>"
  have att: "attached ?s2 b + (if b = a then 1 else 0) = attached s b" for b
  proof -
    have "attached ?s2 b = attached (s\<lparr>shared := (shared s)[i := v]\<rparr>) b"
      by (simp add: attached_def sh)
    with attached_update [OF i(1), of v b] v i(2) a(1) show ?thesis
      by (auto simp: unattached_def attached_to_def)
  qed
  have sc: "strong_count ?s2 b = (if b = a then (if c - 1 = 0 then None else Some (c - 1))
                                   else strong_count s b)" for b
    using strong_count_update [OF c1 a(2), of b] by simp
  have ca: "sint c = int (attached s a)"
    using inv a(2) by (rule counts_agreeD)
  from att [of a] have pos: "1 \<le> attached s a" by simp
  have "int (attached ?s2 b) = owners_recorded (strong_count ?s2 b)
          \<and> strong_count ?s2 b \<noteq> Some 0" for b
  proof (cases "b = a")
    case False
    with att [of b] sc [of b] inv show ?thesis
      by (simp add: counts_agree_def)
  next
    case True
    show ?thesis
    proof (cases "c - 1 = 0")
      case z: True
      with pred_zero [OF ca] have "attached s a = 1" by simp
      with att [of a] True sc [of a] z show ?thesis by (simp add: owners_recorded_def)
    next
      case nz: False
      from sint_pred [OF ca pos] att [of a] True sc [of a] nz show ?thesis
        by (simp add: owners_recorded_def)
    qed
  qed
  then show ?thesis unfolding counts_agree_def by blast
qed

text \<open>Attaching the handle at i, which was unattached, to the block of h.\<close>

lemma attach_agree:
  assumes inv: "counts_agree s"
    and i: "i < length (shared s)" "unattached (shared s ! i)"
    and inc: "increment (SharedPtr.refCount h) (s\<lparr>shared := (shared s)[i := Some h]\<rparr>) = Inr s1"
    and bound: "length (shared s) < 2 ^ 31"
  shows "counts_agree s1"
proof -
  let ?s0 = "s\<lparr>shared := (shared s)[i := Some h]\<rparr>"
  from inc obtain a c where a: "SharedPtr.refCount h = Some a" "strong_count ?s0 a = Some c"
    and c1: "counts s1 = (counts ?s0)[a := Some (c + 1)]"
    and sh: "shared s1 = shared ?s0"
    by (rule increment_Inr)
  from a(2) have sa: "strong_count s a = Some c" by simp
  have att: "attached s1 b = attached s b + (if b = a then 1 else 0)" for b
  proof -
    have "attached s1 b = attached ?s0 b" by (simp add: attached_def sh)
    with attached_update [OF i(1), of "Some h" b] i(2) a(1) show ?thesis
      by (auto simp: unattached_def attached_to_def)
  qed
  have sc: "strong_count s1 b = (if b = a then Some (c + 1) else strong_count s b)" for b
    using strong_count_update [OF _ sa, of s1 "Some (c + 1)" b] c1 by simp
  have ca: "sint c = int (attached s a)"
    using inv sa by (rule counts_agreeD)
  have "attached s1 a \<le> length (shared s1)" by (rule attached_le)
  with att [of a] sh bound have small: "attached s a + 1 < 2 ^ 31" by simp
  have "int (attached s1 b) = owners_recorded (strong_count s1 b)
          \<and> strong_count s1 b \<noteq> Some 0" for b
  proof (cases "b = a")
    case False
    with att [of b] sc [of b] inv show ?thesis
      by (simp add: counts_agree_def)
  next
    case True
    from sint_succ [OF ca small] have "sint (c + 1) \<noteq> 0" by simp
    then have "c + 1 \<noteq> 0" by auto
    with sint_succ [OF ca small] att [of a] True sc [of a] show ?thesis
      by (simp add: owners_recorded_def)
  qed
  then show ?thesis unfolding counts_agree_def by blast
qed

text \<open>Changing only handles, with the same number attached to every block.\<close>

lemma same_attached_agree:
  assumes "counts_agree s" "counts s1 = counts s" "\<And>b. attached s1 b = attached s b"
  shows "counts_agree s1"
proof -
  have "strong_count s1 b = strong_count s b" for b
    using assms(2) by (rule strong_count_cong)
  with assms(1,3) show ?thesis by (simp add: counts_agree_def)
qed

lemma start_agree: "counts_agree (start objs)"
  by (simp add: counts_agree_def start_def attached_def strong_count_def owners_recorded_def)

lemma ctor_agree:
  assumes "counts_agree s"
  shows "counts_agree (SharedPtr_ctor p s)"
proof -
  let ?n = "length (counts s)"
  have none: "strong_count s ?n = None" by (simp add: strong_count_def)
  from assms have "int (attached s ?n) = owners_recorded (strong_count s ?n)"
    by (simp add: counts_agree_def)
  with none have zero: "attached s ?n = 0"
    by (simp add: owners_recorded_def)
  have att: "attached (SharedPtr_ctor p s) b = attached s b + (if b = ?n then 1 else 0)" for b
    by (simp add: SharedPtr_ctor_def attached_def attached_to_def)
  have sc: "strong_count (SharedPtr_ctor p s) b = (if b = ?n then Some 1 else strong_count s b)" for b
    by (auto simp: SharedPtr_ctor_def strong_count_def nth_append)
  have "int (attached (SharedPtr_ctor p s) b) = owners_recorded (strong_count (SharedPtr_ctor p s) b)
          \<and> strong_count (SharedPtr_ctor p s) b \<noteq> Some 0" for b
    using assms zero none by (simp add: att sc counts_agree_def owners_recorded_def)
  then show ?thesis unfolding counts_agree_def by blast
qed

lemma append_unattached_agree:
  assumes "counts_agree s" "unattached v"
  shows "counts_agree (s\<lparr>shared := shared s @ [v]\<rparr>)"
  using assms(1)
proof (rule same_attached_agree)
  show "counts (s\<lparr>shared := shared s @ [v]\<rparr>) = counts s" by simp
  show "attached (s\<lparr>shared := shared s @ [v]\<rparr>) b = attached s b" for b
    using assms(2) by (simp add: attached_append unattached_def)
qed

lemma copy_ctor_agree:
  assumes inv: "counts_agree s"
    and op: "SharedPtr_copy_ctor other s = Inr s1"
    and bound: "length (shared s1) < 2 ^ 31"
  shows "counts_agree s1"
proof -
  from op obtain h where h: "shared_at other s = Inr h"
    and inc: "increment (SharedPtr.refCount h) (s\<lparr>shared := shared s @ [Some h]\<rparr>) = Inr s1"
    by (auto simp: SharedPtr_copy_ctor_def split: sum.splits)
  let ?s0 = "s\<lparr>shared := shared s @ [None]\<rparr>"
  have len: "length (shared s1) = length (shared s) + 1"
    using inc by (auto elim!: increment_Inr)
  have "counts_agree ?s0" using inv by (rule append_unattached_agree) simp
  moreover have "length (shared s) < length (shared ?s0)" by simp
  moreover have "unattached (shared ?s0 ! length (shared s))" by simp
  moreover have "increment (SharedPtr.refCount h)
       (?s0\<lparr>shared := (shared ?s0)[length (shared s) := Some h]\<rparr>) = Inr s1"
    using inc by simp
  moreover have "length (shared ?s0) < 2 ^ 31" using bound len by simp
  ultimately show ?thesis by (rule attach_agree)
qed

lemma dtor_agree:
  assumes inv: "counts_agree s" and op: "SharedPtr_dtor i s = Inr s1"
  shows "counts_agree s1"
proof -
  from op obtain h s2 where h: "shared_at i s = Inr h"
    and d: "decrementAndDelete h s = Inr s2"
    and s1: "s1 = s2\<lparr>shared := (shared s2)[i := None]\<rparr>"
    by (auto simp: SharedPtr_dtor_def split: sum.splits)
  from detach_agree [OF inv h d, of None] s1 show ?thesis by simp
qed

lemma copy_assign_agree:
  assumes inv: "counts_agree s"
    and op: "SharedPtr_copy_assign i other s = Inr s1"
    and bound: "length (shared s1) < 2 ^ 31"
  shows "counts_agree s1"
proof (cases "i = other")
  case True
  with op have "s1 = s" by (auto simp: SharedPtr_copy_assign_def split: sum.splits)
  with inv show ?thesis by simp
next
  case False
  with op obtain t s2 h where t: "shared_at i s = Inr t"
    and d: "decrementAndDelete t s = Inr s2"
    and h: "shared_at other s2 = Inr h"
    and inc: "increment (SharedPtr.refCount h) (s2\<lparr>shared := (shared s2)[i := Some h]\<rparr>) = Inr s1"
    by (auto simp: SharedPtr_copy_assign_def split: sum.splits)
  let ?null = "Some \<lparr>SharedPtr.ptr = None, SharedPtr.refCount = None\<rparr>"
  let ?s3 = "s2\<lparr>shared := (shared s2)[i := ?null]\<rparr>"
  from d have sh: "shared s2 = shared s" by (rule decrementAndDelete_Inr)
  from t have i: "i < length (shared s)" by (simp add: shared_at_Inr)
  have len: "length (shared s1) = length (shared s)"
    using inc sh by (auto elim!: increment_Inr)
  have "counts_agree ?s3" using inv t d by (rule detach_agree) simp
  moreover have "i < length (shared ?s3)" using i sh by simp
  moreover have "unattached (shared ?s3 ! i)" using i sh by simp
  moreover have "increment (SharedPtr.refCount h) (?s3\<lparr>shared := (shared ?s3)[i := Some h]\<rparr>) = Inr s1"
    using inc by simp
  moreover have "length (shared ?s3) < 2 ^ 31" using bound len sh by simp
  ultimately show ?thesis by (rule attach_agree)
qed

text \<open>Handing the share of handle j over to the unattached handle i.\<close>

lemma transfer_agree:
  assumes inv: "counts_agree s"
    and i: "i < length (shared s)" "unattached (shared s ! i)"
    and j: "shared_at j s = Inr h" "i \<noteq> j"
  shows "counts_agree (s\<lparr>shared := (shared s)
           [i := Some h, j := Some \<lparr>SharedPtr.ptr = None, SharedPtr.refCount = None\<rparr>]\<rparr>)"
    (is "counts_agree ?s2")
  using inv
proof (rule same_attached_agree)
  show "counts ?s2 = counts s" by simp
  fix b
  let ?null = "Some \<lparr>SharedPtr.ptr = None, SharedPtr.refCount = None\<rparr>"
  let ?s1 = "s\<lparr>shared := (shared s)[i := Some h]\<rparr>"
  from j have jl: "j < length (shared s)" "shared s ! j = Some h"
    by (simp_all add: shared_at_Inr)
  have 1: "attached ?s1 b = attached s b + (if attached_to b (Some h) then 1 else 0)"
    using attached_update [OF i(1), of "Some h" b] i(2) by (simp add: unattached_def)
  have "j < length (shared ?s1)" using jl by simp
  from attached_update [OF this, of ?null b]
  have 2: "attached ?s2 b + (if attached_to b (Some h) then 1 else 0) = attached ?s1 b"
    using jl j(2) by (simp add: attached_to_def)
  from 1 2 show "attached ?s2 b = attached s b" by simp
qed

lemma move_assign_agree:
  assumes inv: "counts_agree s"
    and op: "SharedPtr_move_assign i other s = Inr s1"
  shows "counts_agree s1"
proof (cases "i = other")
  case True
  with op have "s1 = s" by (auto simp: SharedPtr_move_assign_def split: sum.splits)
  with inv show ?thesis by simp
next
  case False
  let ?null = "Some \<lparr>SharedPtr.ptr = None, SharedPtr.refCount = None\<rparr>"
  from False op obtain t s2 h where t: "shared_at i s = Inr t"
    and d: "decrementAndDelete t s = Inr s2"
    and h: "shared_at other s2 = Inr h"
    and s1: "s1 = s2\<lparr>shared := (shared s2)[i := Some h, other := ?null]\<rparr>"
    by (auto simp: SharedPtr_move_assign_def split: sum.splits)
  let ?s3 = "s2\<lparr>shared := (shared s2)[i := ?null]\<rparr>"
  from d have sh: "shared s2 = shared s" by (rule decrementAndDelete_Inr)
  from t have i: "i < length (shared s)" by (simp add: shared_at_Inr)
  have "counts_agree ?s3" using inv t d by (rule detach_agree) simp
  moreover have "i < length (shared ?s3)" using i sh by simp
  moreover have "unattached (shared ?s3 ! i)" using i sh by simp
  moreover have "shared_at other ?s3 = Inr h"
    using h False by (simp add: shared_at_Inr)
  ultimately have "counts_agree (?s3\<lparr>shared := (shared ?s3)[i := Some h, other := ?null]\<rparr>)"
    using False by (rule transfer_agree)
  with s1 show ?thesis by simp
qed

lemma move_ctor_agree:
  assumes inv: "counts_agree s"
    and op: "SharedPtr_move_ctor other s = Inr s1"
  shows "counts_agree s1"
proof -
  let ?null = "Some \<lparr>SharedPtr.ptr = None, SharedPtr.refCount = None\<rparr>"
  from op obtain h where h: "shared_at other s = Inr h"
    and s1: "s1 = s\<lparr>shared := (shared s)[other := ?null] @ [Some h]\<rparr>"
    by (auto simp: SharedPtr_move_ctor_def split: sum.splits)
  let ?n = "length (shared s)"
  let ?s0 = "s\<lparr>shared := shared s @ [None]\<rparr>"
  from h have o: "other < ?n" by (simp add: shared_at_Inr)
  have "counts_agree ?s0" using inv by (rule append_unattached_agree) simp
  moreover have "?n < length (shared ?s0)" by simp
  moreover have "unattached (shared ?s0 ! ?n)" by simp
  moreover have "shared_at other ?s0 = Inr h"
    using h by (simp add: shared_at_Inr nth_append)
  moreover have "?n \<noteq> other" using o by simp
  ultimately have "counts_agree (?s0\<lparr>shared := (shared ?s0)[?n := Some h, other := ?null]\<rparr>)"
    by (rule transfer_agree)
  moreover have "(shared s @ [None])[?n := Some h, other := ?null]
                   = (shared s)[other := ?null] @ [Some h]"
    using o by (simp add: list_update_append)
  ultimately show ?thesis using s1 by simp
qed

lemma step_agree:
  assumes "counts_agree s" "step x s = Inr s1" "length (shared s1) < 2 ^ 31"
  shows "counts_agree s1"
proof (cases x)
  case (Construct p)
  with assms show ?thesis by (auto intro: ctor_agree)
next
  case (CopyConstruct other)
  with assms show ?thesis by (auto intro: copy_ctor_agree)
next
  case (CopyAssign i other)
  with assms show ?thesis by (auto intro: copy_assign_agree)
next
  case (MoveConstruct other)
  with assms show ?thesis by (auto intro: move_ctor_agree)
next
  case (MoveAssign i other)
  with assms show ?thesis by (auto intro: move_assign_agree)
next
  case (Destroy i)
  with assms show ?thesis by (auto intro: dtor_agree)
qed

lemma step_handles_mono:
  assumes "step x s = Inr s1"
  shows "length (shared s) \<le> length (shared s1)"
  using assms
  by (cases x)
     (auto simp: SharedPtr_ctor_def SharedPtr_copy_ctor_def SharedPtr_copy_assign_def
        SharedPtr_move_ctor_def SharedPtr_move_assign_def SharedPtr_dtor_def
        split: sum.splits if_splits
        elim!: increment_Inr decrementAndDelete_Inr)

lemma run_handles_mono:
  "run xs s = Inr s1 \<Longrightarrow> length (shared s) \<le> length (shared s1)"
proof (induction xs arbitrary: s)
  case Nil
  then show ?case by simp
next
  case (Cons x xs)
  then obtain s2 where "step x s = Inr s2" "run xs s2 = Inr s1"
    by (auto split: sum.splits)
  with Cons.IH [of s2] step_handles_mono [of x s s2] show ?case by simp
qed

lemma run_agree:
  "counts_agree s \<Longrightarrow> run xs s = Inr s1 \<Longrightarrow> length (shared s1) < 2 ^ 31 \<Longrightarrow> counts_agree s1"
proof (induction xs arbitrary: s)
  case Nil
  then show ?case by simp
next
  case (Cons x xs)
  then obtain s2 where 1: "step x s = Inr s2" and 2: "run xs s2 = Inr s1"
    by (auto split: sum.splits)
  from run_handles_mono [OF 2] Cons.prems(3) have "length (shared s2) < 2 ^ 31" by simp
  with Cons.prems(1) 1 have "counts_agree s2" by (rule step_agree)
  then show ?case using 2 Cons.prems(3) by (rule Cons.IH)
qed

section \<open>Released blocks\<close>

lemma wstep_frame:
  assumes "wstep w s = Inr s1"
  shows "counts s1 = counts s \<and> shared s1 = shared s \<and> objects s1 = objects s"
  using assms
  by (cases w)
     (auto simp: WeakPtr_ctor_def WeakPtr_from_shared_def WeakPtr_copy_ctor_def
        WeakPtr_copy_assign_def WeakPtr_dtor_def split: sum.splits)

lemma keeps_released_refl: "keeps_released s s"
  by (simp add: keeps_released_def)

lemma keeps_released_trans:
  "keeps_released s s1 \<Longrightarrow> keeps_released s1 s2 \<Longrightarrow> keeps_released s s2"
  by (auto simp: keeps_released_def)

lemma keeps_released_handles:
  "keeps_released s s1 \<Longrightarrow> keeps_released s (s1\<lparr>shared := x\<rparr>)"
  by (simp add: keeps_released_def)

lemma keeps_released_handles' [simp]:
  "keeps_released (s\<lparr>shared := x\<rparr>) s1 = keeps_released s s1"
  by (simp add: keeps_released_def)

lemma keeps_released_update:
  assumes "counts s1 = (counts s)[a := v]" "strong_count s a = Some c"
  shows "keeps_released s s1"
  using strong_count_update [OF assms] assms
  by (auto simp: keeps_released_def)

lemma decrement_keeps_released:
  assumes "decrementAndDelete h s = Inr s1"
  shows "keeps_released s s1"
  using assms by (rule decrementAndDelete_Inr) (rule keeps_released_update)

lemma increment_keeps_released:
  assumes "increment r s = Inr s1"
  shows "keeps_released s s1"
  using assms by (rule increment_Inr) (rule keeps_released_update)

lemma ctor_keeps_released: "keeps_released s (SharedPtr_ctor p s)"
  by (simp add: keeps_released_def SharedPtr_ctor_def strong_count_def nth_append)

lemma step_keeps_released:
  assumes "step x s = Inr s1"
  shows "keeps_released s s1"
proof (cases x)
  case (Construct p)
  with assms show ?thesis by (auto intro: ctor_keeps_released)
next
  case (CopyConstruct other)
  with assms obtain h where
    "increment (SharedPtr.refCount h) (s\<lparr>shared := shared s @ [Some h]\<rparr>) = Inr s1"
    by (auto simp: SharedPtr_copy_ctor_def split: sum.splits)
  from increment_keeps_released [OF this] show ?thesis by simp
next
  case (CopyAssign i other)
  show ?thesis
  proof (cases "i = other")
    case True
    with assms CopyAssign have "s1 = s"
      by (auto simp: SharedPtr_copy_assign_def split: sum.splits)
    then show ?thesis by (simp add: keeps_released_refl)
  next
    case False
    with assms CopyAssign obtain t s2 h where d: "decrementAndDelete t s = Inr s2"
      and inc: "increment (SharedPtr.refCount h) (s2\<lparr>shared := (shared s2)[i := Some h]\<rparr>) = Inr s1"
      by (auto simp: SharedPtr_copy_assign_def split: sum.splits)
    from increment_keeps_released [OF inc]
    have "keeps_released s2 s1" by simp
    with decrement_keeps_released [OF d] show ?thesis by (rule keeps_released_trans)
  qed
next
  case (MoveConstruct other)
  with assms show ?thesis
    by (auto simp: SharedPtr_move_ctor_def keeps_released_def split: sum.splits)
next
  case (MoveAssign i other)
  show ?thesis
  proof (cases "i = other")
    case True
    with assms MoveAssign have "s1 = s"
      by (auto simp: SharedPtr_move_assign_def split: sum.splits)
    then show ?thesis by (simp add: keeps_released_refl)
  next
    case False
    with assms MoveAssign obtain t s2 x where d: "decrementAndDelete t s = Inr s2"
      and "s1 = s2\<lparr>shared := x\<rparr>"
      by (auto simp: SharedPtr_move_assign_def split: sum.splits)
    with decrement_keeps_released [OF d] show ?thesis
      by (simp add: keeps_released_handles)
  qed
next
  case (Destroy i)
  with assms obtain t s2 x where d: "decrementAndDelete t s = Inr s2"
    and "s1 = s2\<lparr>shared := x\<rparr>"
    by (auto simp: SharedPtr_dtor_def split: sum.splits)
  with decrement_keeps_released [OF d] show ?thesis
    by (simp add: keeps_released_handles)
qed

lemma pstep_agree:
  assumes "counts_agree s" "pstep x s = Inr s1" "length (shared s1) < 2 ^ 31"
  shows "counts_agree s1"
proof (cases x)
  case (OnShared y)
  with assms show ?thesis by (auto intro: step_agree)
next
  case (OnWeak w)
  with assms(2) have "wstep w s = Inr s1" by simp
  from wstep_frame [OF this] have c: "counts s1 = counts s" and h: "shared s1 = shared s"
    by simp_all
  from assms(1) c show ?thesis
    by (rule same_attached_agree) (rule attached_cong [OF h])
qed

lemma pstep_mono:
  assumes "pstep x s = Inr s1"
  shows "length (shared s) \<le> length (shared s1) \<and> length (counts s) \<le> length (counts s1)"
proof (cases x)
  case (OnShared y)
  with assms step_handles_mono [of y s s1] step_keeps_released [of y s s1] show ?thesis
    by (simp add: keeps_released_def)
next
  case (OnWeak w)
  with assms wstep_frame [of w s s1] show ?thesis by simp
qed

lemma pstep_keeps_released:
  assumes "pstep x s = Inr s1" "a < length (counts s)" "strong_count s a = None"
  shows "strong_count s1 a = None"
proof (cases x)
  case (OnShared y)
  with assms step_keeps_released [of y s s1] show ?thesis
    by (simp add: keeps_released_def)
next
  case (OnWeak w)
  with assms wstep_frame [of w s s1] show ?thesis by (simp add: strong_count_def)
qed

lemma prun_mono:
  "prun xs s = Inr s1 \<Longrightarrow>
     length (shared s) \<le> length (shared s1) \<and> length (counts s) \<le> length (counts s1)"
proof (induction xs arbitrary: s)
  case Nil
  then show ?case by simp
next
  case (Cons x xs)
  then obtain s2 where "pstep x s = Inr s2" "prun xs s2 = Inr s1"
    by (auto split: sum.splits)
  with Cons.IH [of s2] pstep_mono [of x s s2] show ?case by simp
qed

lemma prun_agree:
  "counts_agree s \<Longrightarrow> prun xs s = Inr s1 \<Longrightarrow> length (shared s1) < 2 ^ 31 \<Longrightarrow> counts_agree s1"
proof (induction xs arbitrary: s)
  case Nil
  then show ?case by simp
next
  case (Cons x xs)
  then obtain s2 where 1: "pstep x s = Inr s2" and 2: "prun xs s2 = Inr s1"
    by (auto split: sum.splits)
  from prun_mono [OF 2] Cons.prems(3) have "length (shared s2) < 2 ^ 31" by simp
  with Cons.prems(1) 1 have "counts_agree s2" by (rule pstep_agree)
  then show ?case using 2 Cons.prems(3) by (rule Cons.IH)
qed

lemma prun_keeps_released:
  "prun xs s = Inr s1 \<Longrightarrow> a < length (counts s) \<Longrightarrow> strong_count s a = None
     \<Longrightarrow> strong_count s1 a = None"
proof (induction xs arbitrary: s)
  case Nil
  then show ?case by simp
next
  case (Cons x xs)
  then obtain s2 where 1: "pstep x s = Inr s2" and 2: "prun xs s2 = Inr s1"
    by (auto split: sum.splits)
  from pstep_keeps_released [OF 1 Cons.prems(2,3)] pstep_mono [OF 1] Cons.prems(2)
  have "a < length (counts s2)" "strong_count s2 a = None" by simp_all
  with 2 show ?case by (intro Cons.IH)
qed

section \<open>UniquePtr: every object is owned or deleted\<close>

lemma list_all_update:
  "list_all P xs \<Longrightarrow> P v \<Longrightarrow> list_all P (xs[i := v])"
  using set_update_subset_insert [of xs i v] by (auto simp: list_all_iff)

lemma unique_at_Inr:
  "unique_at i s = Inr u \<longleftrightarrow> i < length (unique s) \<and> unique s ! i = Some u"
  by (auto simp: unique_at_def split: option.splits)

lemma uniform_at:
  "uniform D s \<Longrightarrow> unique_at i s = Inr u \<Longrightarrow> deleter u = D"
  by (auto simp: uniform_def list_all_length stores_def unique_at_Inr split: option.splits)

lemma owners_update:
  "i < length (unique s) \<Longrightarrow>
     owners (s\<lparr>unique := (unique s)[i := v]\<rparr>) p + (if owns p (unique s ! i) then 1 else 0)
       = owners s p + (if owns p v then 1 else 0)"
  using length_filter_update [of i "unique s" "owns p" v]
  by (simp add: owners_def)

lemma CustomDeleter_prints:
  "CustomDeleter q w = Inr w1 \<Longrightarrow> cout w1 = cout w @ [''Custom deleter called'']"
  by (auto simp: CustomDeleter_def delete_expr_def split: if_splits)

text \<open>What \<open>delete_\<close> does, by the pointer the handle holds.\<close>

lemma delete_empty:
  "unique_at i s = Inr u \<Longrightarrow> UniquePtr.ptr u = None \<Longrightarrow> UniquePtr_delete i s = Inr s"
  by (simp add: UniquePtr_delete_def)

lemma delete_owning:
  "unique_at i s = Inr u \<Longrightarrow> UniquePtr.ptr u = Some q \<Longrightarrow>
     UniquePtr_delete i s =
       (case deleter u q (world s) of
          Inl e \<Rightarrow> Inl e
        | Inr w \<Rightarrow>
            Inr (s\<lparr>unique := (unique s)[i := Some (u\<lparr>UniquePtr.ptr := None\<rparr>)],
                   calls := calls s @ [q], world := w\<rparr>))"
  by (simp add: UniquePtr_delete_def)

lemma delete_Inr:
  assumes "UniquePtr_delete i s = Inr s1"
  obtains u where "unique_at i s = Inr u"
    "unique s1 = (unique s)[i := Some (u\<lparr>UniquePtr.ptr := None\<rparr>)]"
    "calls s1 = calls s @ (case UniquePtr.ptr u of None \<Rightarrow> [] | Some q \<Rightarrow> [q])"
    "case UniquePtr.ptr u of None \<Rightarrow> world s1 = world s
       | Some q \<Rightarrow> deleter u q (world s) = Inr (world s1)"
proof -
  from assms obtain u where u: "unique_at i s = Inr u"
    by (auto simp: UniquePtr_delete_def split: sum.splits)
  then have i: "i < length (unique s)" "unique s ! i = Some u"
    by (simp_all add: unique_at_Inr)
  show thesis
  proof (cases "UniquePtr.ptr u")
    case None
    with u assms have s1: "s1 = s" by (simp add: delete_empty)
    from None have eq: "u\<lparr>UniquePtr.ptr := None\<rparr> = u" by simp
    have "(unique s)[i := Some (u\<lparr>UniquePtr.ptr := None\<rparr>)] = unique s"
      unfolding eq using i by (simp add: list_update_same_conv)
    with s1 u None show ?thesis by (intro that [of u]) simp_all
  next
    case (Some q)
    with u assms show ?thesis
      by (intro that [of u]) (auto simp: delete_owning split: sum.splits)
  qed
qed


lemma delete_uniform:
  assumes "UniquePtr_delete i s = Inr s1" "uniform D s"
  shows "uniform D s1"
proof -
  from assms(1) obtain u where u: "unique_at i s = Inr u"
    and un: "unique s1 = (unique s)[i := Some (u\<lparr>UniquePtr.ptr := None\<rparr>)]"
    and de: "calls s1 = calls s @ (case UniquePtr.ptr u of None \<Rightarrow> [] | Some q \<Rightarrow> [q])"
    and wo: "case UniquePtr.ptr u of None \<Rightarrow> world s1 = world s
       | Some q \<Rightarrow> deleter u q (world s) = Inr (world s1)"
    by (rule delete_Inr)
  from assms(2) u have d: "deleter u = D" by (rule uniform_at)
  from assms(2) have "list_all (stores D) (unique s)" by (simp add: uniform_def)
  then have 1: "list_all (stores D) (unique s1)"
    unfolding un by (rule list_all_update) (simp add: stores_def d)
  have 2: "cout (world s1) = replicate (length (calls s1)) ''Custom deleter called''"
    if c: "D = CustomDeleter"
  proof -
    from assms(2) c have c0: "cout (world s) = replicate (length (calls s)) ''Custom deleter called''"
      by (simp add: uniform_def)
    show ?thesis
    proof (cases "UniquePtr.ptr u")
      case None
      with wo de c0 show ?thesis by simp
    next
      case (Some q)
      with wo d c have "CustomDeleter q (world s) = Inr (world s1)" by simp
      from CustomDeleter_prints [OF this] de c0 Some show ?thesis
        by (simp add: replicate_append_same)
    qed
  qed
  from 1 2 show ?thesis by (simp add: uniform_def)
qed

lemma ustep_uniform:
  assumes "ustep D x s = Inr s1" "uniform D s"
  shows "uniform D s1"
proof (cases x)
  case (UConstruct q)
  with assms show ?thesis
    by (auto simp: UniquePtr_ctor_def uniform_def stores_def)
next
  case (UMoveConstruct other)
  with assms(1) obtain u where u: "unique_at other s = Inr u"
    and s1: "s1 = s\<lparr>unique := (unique s)[other := Some (u\<lparr>UniquePtr.ptr := None\<rparr>)]
                             @ [Some \<lparr>UniquePtr.ptr = UniquePtr.ptr u, deleter = D\<rparr>]\<rparr>"
    by (auto simp: UniquePtr_move_ctor_def split: sum.splits)
  from assms(2) u have d: "deleter u = D" by (rule uniform_at)
  from assms(2) have "list_all (stores D) (unique s)" by (simp add: uniform_def)
  then have "list_all (stores D) ((unique s)[other := Some (u\<lparr>UniquePtr.ptr := None\<rparr>)])"
    by (rule list_all_update) (simp add: stores_def d)
  with assms(2) s1 show ?thesis by (simp add: uniform_def stores_def)
next
  case (UMoveAssign i other)
  show ?thesis
  proof (cases "i = other")
    case True
    with assms UMoveAssign have "s1 = s"
      by (auto simp: UniquePtr_move_assign_def split: sum.splits)
    with assms(2) show ?thesis by simp
  next
    case False
    with assms(1) UMoveAssign obtain s2 t u where d: "UniquePtr_delete i s = Inr s2"
      and t: "unique_at i s2 = Inr t" and u: "unique_at other s2 = Inr u"
      and s1: "s1 = s2\<lparr>unique := (unique s2)[i := Some (t\<lparr>UniquePtr.ptr := UniquePtr.ptr u\<rparr>),
                                         other := Some (u\<lparr>UniquePtr.ptr := None\<rparr>)]\<rparr>"
      by (auto simp: UniquePtr_move_assign_def split: sum.splits)
    from d assms(2) have u2: "uniform D s2" by (rule delete_uniform)
    from u2 t have dt: "deleter t = D" by (rule uniform_at)
    from u2 u have du: "deleter u = D" by (rule uniform_at)
    from u2 have "list_all (stores D) (unique s2)" by (simp add: uniform_def)
    then have "list_all (stores D) ((unique s2)[i := Some (t\<lparr>UniquePtr.ptr := UniquePtr.ptr u\<rparr>)])"
      by (rule list_all_update) (simp add: stores_def dt)
    then have "list_all (stores D) ((unique s2)[i := Some (t\<lparr>UniquePtr.ptr := UniquePtr.ptr u\<rparr>),
                                         other := Some (u\<lparr>UniquePtr.ptr := None\<rparr>)])"
      by (rule list_all_update) (simp add: stores_def du)
    with u2 s1 show ?thesis by (simp add: uniform_def)
  qed
next
  case (UDestroy i)
  with assms(1) obtain s2 where d: "UniquePtr_delete i s = Inr s2"
    and s1: "s1 = s2\<lparr>unique := (unique s2)[i := None]\<rparr>"
    by (auto simp: UniquePtr_dtor_def split: sum.splits)
  from d assms(2) have u2: "uniform D s2" by (rule delete_uniform)
  then have "list_all (stores D) (unique s2)" by (simp add: uniform_def)
  then have "list_all (stores D) ((unique s2)[i := None])"
    by (rule list_all_update) (simp add: stores_def)
  with u2 s1 show ?thesis by (simp add: uniform_def)
qed










section \<open>UniquePtr: runs that do not fault\<close>

text \<open>With a deleter that deletes what is live (the default one and \<^verbatim>\<open>CustomDeleter\<close> do),
  and every object handed to one constructor only, a program faults only by naming a handle
  that is not alive: no deleter call faults and no object is deleted twice.\<close>

lemma default_delete_deletes: "deletes default_delete"
  by (simp add: deletes_def default_delete_def delete_expr_def live_object_def)

lemma CustomDeleter_deletes: "deletes CustomDeleter"
  by (simp add: deletes_def CustomDeleter_def delete_expr_def live_object_def)

lemma owned_live_cong:
  assumes "owned_live s fut" "\<And>p. owners s1 p = owners s p" "world s1 = world s"
  shows "owned_live s1 fut"
  using assms by (simp add: owned_live_def)

lemma owners_ctor:
  "owners (UniquePtr_ctor D q s) p = owners s p + (if q = Some p then 1 else 0)"
  by (simp add: UniquePtr_ctor_def owners_def owns_def)

lemma owners_end:
  assumes "unique_at i s = Inr t" "UniquePtr.ptr t = None"
  shows "owners (s\<lparr>unique := (unique s)[i := None]\<rparr>) p = owners s p"
proof -
  from assms(1) have i: "i < length (unique s)" "unique s ! i = Some t"
    by (simp_all add: unique_at_Inr)
  from owners_update [OF i(1), of None p] i(2) assms(2) show ?thesis
    by (simp add: owns_def)
qed

lemma owners_transfer:
  assumes i: "unique_at i s = Inr t" "UniquePtr.ptr t = None"
    and j: "unique_at j s = Inr u" "i \<noteq> j"
  shows "owners (s\<lparr>unique := (unique s)[i := Some (t\<lparr>UniquePtr.ptr := UniquePtr.ptr u\<rparr>),
                                            j := Some (u\<lparr>UniquePtr.ptr := None\<rparr>)]\<rparr>) p
           = owners s p"
proof -
  from i(1) have il: "i < length (unique s)" "unique s ! i = Some t"
    by (simp_all add: unique_at_Inr)
  from j(1) have jl: "j < length (unique s)" "unique s ! j = Some u"
    by (simp_all add: unique_at_Inr)
  let ?s3 = "s\<lparr>unique := (unique s)[i := Some (t\<lparr>UniquePtr.ptr := UniquePtr.ptr u\<rparr>)]\<rparr>"
  from owners_update [OF il(1), of "Some (t\<lparr>UniquePtr.ptr := UniquePtr.ptr u\<rparr>)" p] il(2) i(2)
  have 1: "owners ?s3 p = owners s p + (if UniquePtr.ptr u = Some p then 1 else 0)"
    by (simp add: owns_def)
  have "j < length (unique ?s3)" using jl by simp
  from owners_update [OF this, of "Some (u\<lparr>UniquePtr.ptr := None\<rparr>)" p] jl(2) j(2)
  have 2: "owners (?s3\<lparr>unique := (unique ?s3)[j := Some (u\<lparr>UniquePtr.ptr := None\<rparr>)]\<rparr>) p
             + (if UniquePtr.ptr u = Some p then 1 else 0) = owners ?s3 p"
    by (simp add: owns_def)
  from 1 2 show ?thesis by simp
qed

lemma owners_move_ctor:
  assumes "unique_at j s = Inr u"
  shows "owners (s\<lparr>unique := (unique s)[j := Some (u\<lparr>UniquePtr.ptr := None\<rparr>)]
                                 @ [Some \<lparr>UniquePtr.ptr = UniquePtr.ptr u, deleter = D\<rparr>]\<rparr>) p
           = owners s p"
proof -
  from assms have o: "j < length (unique s)" "unique s ! j = Some u"
    by (simp_all add: unique_at_Inr)
  from owners_update [OF o(1), of "Some (u\<lparr>UniquePtr.ptr := None\<rparr>)" p] o(2)
  have "owners (s\<lparr>unique := (unique s)[j := Some (u\<lparr>UniquePtr.ptr := None\<rparr>)]\<rparr>) p
          + (if UniquePtr.ptr u = Some p then 1 else 0) = owners s p"
    by (simp add: owns_def)
  moreover have "owners (s\<lparr>unique := (unique s)[j := Some (u\<lparr>UniquePtr.ptr := None\<rparr>)]
                                 @ [Some \<lparr>UniquePtr.ptr = UniquePtr.ptr u, deleter = D\<rparr>]\<rparr>) p
      = owners (s\<lparr>unique := (unique s)[j := Some (u\<lparr>UniquePtr.ptr := None\<rparr>)]\<rparr>) p
          + (if UniquePtr.ptr u = Some p then 1 else 0)"
    by (simp add: owners_def owns_def)
  ultimately show ?thesis by simp
qed

text \<open>\<open>delete_\<close> on a live handle returns when the deleter deletes what is live.\<close>

lemma delete_safe:
  assumes u: "unique_at i s = Inr u" and d: "deleter u = D" "deletes D"
    and k: "owned_live s fut"
  shows "\<exists>s1. UniquePtr_delete i s = Inr s1 \<and> owned_live s1 fut
            \<and> unique_at i s1 = Inr (u\<lparr>UniquePtr.ptr := None\<rparr>)
            \<and> (\<forall>j. j \<noteq> i \<longrightarrow> unique_at j s1 = unique_at j s)"
proof (cases "UniquePtr.ptr u")
  case None
  then have "u\<lparr>UniquePtr.ptr := None\<rparr> = u" by simp
  with u None k show ?thesis by (simp add: delete_empty)
next
  case (Some q)
  from u have i: "i < length (unique s)" "unique s ! i = Some u"
    by (simp_all add: unique_at_Inr)
  have "Some u \<in> set (filter (owns q) (unique s))"
    using i Some nth_mem [of i "unique s"] by (simp add: owns_def)
  then have pos: "0 < owners s q" unfolding owners_def by (rule length_pos_if_in_set)
  with k have lq: "live_object (world s) q" by (simp add: owned_live_def)
  with d obtain w1 where w1: "D q (world s) = Inr w1" "heap w1 = (heap (world s))[q := None]"
    unfolding deletes_def by blast
  let ?s1 = "s\<lparr>unique := (unique s)[i := Some (u\<lparr>UniquePtr.ptr := None\<rparr>)],
                calls := calls s @ [q], world := w1\<rparr>"
  have r: "UniquePtr_delete i s = Inr ?s1"
    using u Some d(1) w1(1) by (simp add: delete_owning)
  have ow: "owners ?s1 p + (if q = p then 1 else 0) = owners s p" for p
  proof -
    have "owners ?s1 p = owners (s\<lparr>unique := (unique s)[i := Some (u\<lparr>UniquePtr.ptr := None\<rparr>)]\<rparr>) p"
      by (simp add: owners_def)
    with owners_update [OF i(1), of "Some (u\<lparr>UniquePtr.ptr := None\<rparr>)" p] i(2) Some
    show ?thesis by (simp add: owns_def)
  qed
  have lv: "live_object w1 p" if "live_object (world s) p" "p \<noteq> q" for p
    using that w1(2) by (simp add: live_object_def)
  have "owned_live ?s1 fut"
    unfolding owned_live_def
  proof (intro allI conjI impI)
    fix p
    from k have a: "owners s p \<le> 1" by (simp add: owned_live_def)
    with ow [of p] show "owners ?s1 p \<le> 1" by simp
    show "live_object (world ?s1) p" if "0 < owners ?s1 p"
    proof -
      from that ow [of p] a have "p \<noteq> q" "0 < owners s p" by (auto split: if_splits)
      with k lv [of p] show ?thesis by (simp add: owned_live_def)
    qed
    assume f: "p \<in> set fut"
    with k have z: "owners s p = 0" "live_object (world s) p" by (simp_all add: owned_live_def)
    with pos have "p \<noteq> q" by auto
    with z ow [of p] show "owners ?s1 p = 0" by simp
    from z \<open>p \<noteq> q\<close> lv [of p] show "live_object (world ?s1) p" by simp
  qed
  moreover have "unique_at i ?s1 = Inr (u\<lparr>UniquePtr.ptr := None\<rparr>)"
    using i by (simp add: unique_at_Inr)
  moreover have "unique_at j ?s1 = unique_at j s" if "j \<noteq> i" for j
    using that by (simp add: unique_at_def)
  ultimately show ?thesis using r by auto
qed

lemma ustep_safe:
  assumes k: "owned_live s (raw_pointers (x # xs))"
    and dist: "distinct (raw_pointers (x # xs))"
    and un: "uniform D s" and d: "deletes D"
  shows "(\<exists>s1. ustep D x s = Inr s1 \<and> owned_live s1 (raw_pointers xs))
       \<or> ustep D x s = Inl OutsideLifetime"
proof (cases x)
  case (UConstruct q)
  show ?thesis
  proof (cases q)
    case None
    with UConstruct k have k0: "owned_live s (raw_pointers xs)" by simp
    have "owned_live (UniquePtr_ctor D None s) (raw_pointers xs)"
      using k0 by (rule owned_live_cong) (simp_all add: owners_ctor, simp add: UniquePtr_ctor_def)
    with UConstruct None show ?thesis by simp
  next
    case (Some p0)
    with UConstruct k dist have k0: "owned_live s (p0 # raw_pointers xs)"
      and nin: "p0 \<notin> set (raw_pointers xs)" by simp_all
    have "owned_live (UniquePtr_ctor D q s) (raw_pointers xs)"
      unfolding owned_live_def
    proof (intro allI conjI impI)
      fix p
      from k0 have a: "owners s p \<le> 1" "0 < owners s p \<longrightarrow> live_object (world s) p"
        "owners s p0 = 0" "live_object (world s) p0"
        by (simp_all add: owned_live_def)
      have w: "world (UniquePtr_ctor D q s) = world s" by (simp add: UniquePtr_ctor_def)
      from a Some show "owners (UniquePtr_ctor D q s) p \<le> 1" by (auto simp: owners_ctor)
      show "live_object (world (UniquePtr_ctor D q s)) p" if "0 < owners (UniquePtr_ctor D q s) p"
        using that a Some w by (cases "p = p0") (auto simp: owners_ctor)
      assume f: "p \<in> set (raw_pointers xs)"
      with nin have "p \<noteq> p0" by auto
      moreover from k0 f have "owners s p = 0" "live_object (world s) p"
        by (simp_all add: owned_live_def)
      ultimately show "owners (UniquePtr_ctor D q s) p = 0"
        "live_object (world (UniquePtr_ctor D q s)) p"
        using Some w by (simp_all add: owners_ctor)
    qed
    with UConstruct show ?thesis by simp
  qed
next
  case (UMoveConstruct j)
  with k have k0: "owned_live s (raw_pointers xs)" by simp
  show ?thesis
  proof (cases "unique_at j s")
    case (Inl e)
    then have "e = OutsideLifetime" by (auto simp: unique_at_def split: if_splits option.splits)
    with Inl UMoveConstruct show ?thesis by (simp add: UniquePtr_move_ctor_def)
  next
    case (Inr u)
    let ?s1 = "s\<lparr>unique := (unique s)[j := Some (u\<lparr>UniquePtr.ptr := None\<rparr>)]
                             @ [Some \<lparr>UniquePtr.ptr = UniquePtr.ptr u, deleter = D\<rparr>]\<rparr>"
    have "owned_live ?s1 (raw_pointers xs)"
      using k0 by (rule owned_live_cong) (simp_all add: owners_move_ctor [OF Inr])
    with Inr UMoveConstruct show ?thesis by (simp add: UniquePtr_move_ctor_def)
  qed
next
  case (UMoveAssign i j)
  with k have k0: "owned_live s (raw_pointers xs)" by simp
  show ?thesis
  proof (cases "unique_at i s")
    case (Inl e)
    then have "e = OutsideLifetime" by (auto simp: unique_at_def split: if_splits option.splits)
    with Inl UMoveAssign show ?thesis by (simp add: UniquePtr_move_assign_def)
  next
    case t0: (Inr t)
    show ?thesis
    proof (cases "unique_at j s")
      case (Inl e)
      then have "e = OutsideLifetime" by (auto simp: unique_at_def split: if_splits option.splits)
      with Inl t0 UMoveAssign show ?thesis by (simp add: UniquePtr_move_assign_def)
    next
      case u0: (Inr u)
      show ?thesis
      proof (cases "i = j")
        case True
        with t0 u0 UMoveAssign k0 show ?thesis by (simp add: UniquePtr_move_assign_def)
      next
        case False
        from delete_safe [OF t0 uniform_at [OF un t0] d k0]
        obtain s2 where s2: "UniquePtr_delete i s = Inr s2" "owned_live s2 (raw_pointers xs)"
          "unique_at i s2 = Inr (t\<lparr>UniquePtr.ptr := None\<rparr>)"
          "\<forall>j. j \<noteq> i \<longrightarrow> unique_at j s2 = unique_at j s"
          by blast
        from s2(4) False u0 have uj: "unique_at j s2 = Inr u" by auto
        let ?t = "t\<lparr>UniquePtr.ptr := None\<rparr>"
        let ?s1 = "s2\<lparr>unique := (unique s2)[i := Some (t\<lparr>UniquePtr.ptr := UniquePtr.ptr u\<rparr>),
                                           j := Some (u\<lparr>UniquePtr.ptr := None\<rparr>)]\<rparr>"
        have tr: "owners ?s1 p = owners s2 p" for p
          using owners_transfer [OF s2(3) _ uj False, of p] by simp
        have "owned_live ?s1 (raw_pointers xs)"
          using s2(2) by (rule owned_live_cong) (simp_all add: tr)
        moreover have "UniquePtr_move_assign i j s = Inr ?s1"
          using t0 u0 False s2(1,3) uj by (simp add: UniquePtr_move_assign_def)
        ultimately show ?thesis using UMoveAssign by auto
      qed
    qed
  qed
next
  case (UDestroy i)
  with k have k0: "owned_live s (raw_pointers xs)" by simp
  show ?thesis
  proof (cases "unique_at i s")
    case (Inl e)
    then have "e = OutsideLifetime" by (auto simp: unique_at_def split: if_splits option.splits)
    with Inl UDestroy show ?thesis by (simp add: UniquePtr_dtor_def UniquePtr_delete_def)
  next
    case t0: (Inr t)
    from delete_safe [OF t0 uniform_at [OF un t0] d k0]
    obtain s2 where s2: "UniquePtr_delete i s = Inr s2" "owned_live s2 (raw_pointers xs)"
      "unique_at i s2 = Inr (t\<lparr>UniquePtr.ptr := None\<rparr>)"
      by blast
    let ?s1 = "s2\<lparr>unique := (unique s2)[i := None]\<rparr>"
    have "owned_live ?s1 (raw_pointers xs)"
      using s2(2) by (rule owned_live_cong) (simp_all add: owners_end [OF s2(3)])
    with s2(1) UDestroy show ?thesis by (simp add: UniquePtr_dtor_def)
  qed
qed

lemma urun_safe:
  "owned_live s (raw_pointers xs) \<Longrightarrow> distinct (raw_pointers xs) \<Longrightarrow> uniform D s
     \<Longrightarrow> deletes D
     \<Longrightarrow> (\<exists>s1. urun D xs s = Inr s1) \<or> urun D xs s = Inl OutsideLifetime"
proof (induction xs arbitrary: s)
  case Nil
  then show ?case by simp
next
  case (Cons x xs)
  have dist: "distinct (raw_pointers xs)"
  proof (cases x)
    case (UConstruct q)
    with Cons.prems(2) show ?thesis by (cases q) simp_all
  qed (use Cons.prems(2) in simp_all)
  from ustep_safe [OF Cons.prems]
  show ?case
  proof
    assume "\<exists>s1. ustep D x s = Inr s1 \<and> owned_live s1 (raw_pointers xs)"
    then obtain s1 where s1: "ustep D x s = Inr s1" "owned_live s1 (raw_pointers xs)" by blast
    from s1(1) Cons.prems(3) have "uniform D s1" by (rule ustep_uniform)
    from Cons.IH [OF s1(2) dist this Cons.prems(4)] s1(1) show ?thesis by simp
  next
    assume "ustep D x s = Inl OutsideLifetime"
    then show ?thesis by simp
  qed
qed

lemma urun_faults_only_outside_lifetime:
  assumes "deletes D" and "distinct (raw_pointers xs)"
    and "\<forall>p \<in> set (raw_pointers xs). p < length objs \<and> objs ! p \<noteq> None"
  shows "(\<exists>s. urun D xs (ustart objs) = Inr s) \<or> urun D xs (ustart objs) = Inl OutsideLifetime"
proof -
  have "owned_live (ustart objs) (raw_pointers xs)"
    using assms(3) by (auto simp: owned_live_def owners_def ustart_def live_object_def)
  moreover have "uniform D (ustart objs)" by (simp add: uniform_def ustart_def)
  ultimately show ?thesis using assms(1,2) by (intro urun_safe)
qed

section \<open>Evaluating the operations\<close>

lemmas shared_ops =
  start_def SharedPtr_ctor_def SharedPtr_copy_ctor_def SharedPtr_copy_assign_def
  SharedPtr_move_ctor_def SharedPtr_move_assign_def SharedPtr_dtor_def
  shared_at_def decrementAndDelete_def increment_def delete_object_def strong_count_def
  use_count_def

lemmas weak_ops =
  WeakPtr_ctor_def WeakPtr_from_shared_def WeakPtr_copy_ctor_def WeakPtr_copy_assign_def
  WeakPtr_dtor_def weak_at_def expired_def lock_def

lemma forward_id: "map forward args = args"
proof -
  have "forward a = a" for a :: "'a arg" by (cases a) simp_all
  then show ?thesis by (simp add: map_idI)
qed

lemma attached_pos:
  assumes "shared_at i s = Inr h" "SharedPtr.refCount h = Some a"
  shows "0 < attached s a"
proof -
  from assms(1) have "i < length (shared s)" "shared s ! i = Some h"
    by (simp_all add: shared_at_Inr)
  then have "Some h \<in> set (shared s)"
    using nth_mem [of i "shared s"] by simp
  with assms(2) have "Some h \<in> set (filter (attached_to a) (shared s))"
    by (simp add: attached_to_def)
  then show ?thesis unfolding attached_def by (rule length_pos_if_in_set)
qed

lemma use_count_agree:
  assumes "counts_agree s" "shared_at i s = Inr h" "SharedPtr.refCount h = Some a"
  shows "use_count i s = Inr (int (attached s a))"
proof -
  from assms(1) have "int (attached s a) = owners_recorded (strong_count s a)"
    by (simp add: counts_agree_def)
  with attached_pos [OF assms(2,3)] obtain c where "strong_count s a = Some c"
    "sint c = int (attached s a)"
    by (cases "strong_count s a") (simp_all add: owners_recorded_def)
  with assms(2,3) show ?thesis by (simp add: use_count_def)
qed

section \<open>Runs without undefined behaviour\<close>

text \<open>
  As long as a sequence of SharedPtr operations runs without undefined behaviour and has
  created fewer than \<open>2\<^sup>3\<^sup>1\<close> handles (the range of the \<^verbatim>\<open>int\<close> counter), the counter of every
  live control block is the number of live SharedPtr handles attached to the block, and
  \<^verbatim>\<open>use_count()\<close> of an attached handle returns it.
\<close>

lemma counter_is_number_of_owners:
  assumes "run (take k ops) (start objs) = Inr s"
    and "length (shared s) < 2 ^ 31"
  shows "(strong_count s a = Some c \<longrightarrow> sint c = int (attached s a))
       \<and> (shared_at i s = Inr h \<and> SharedPtr.refCount h = Some a
            \<longrightarrow> use_count i s = Inr (int (attached s a)))"
proof -
  have "counts_agree s"
    using start_agree assms by (rule run_agree)
  then show ?thesis
    by (auto dest: counts_agreeD intro: use_count_agree)
qed

text \<open>
  In such a run, with the events of WeakPtr handles among the operations, an allocated
  control block is released if and only if no live SharedPtr is attached to it, and a
  released block is not live again later.
\<close>

lemma released_iff_no_owner:
  assumes "prun xs (start objs) = Inr s"
    and "prun ys s = Inr s1"
    and "length (shared s1) < 2 ^ 31"
    and "a < length (counts s)"
  shows "(strong_count s a = None) = (attached s a = 0)
       \<and> (strong_count s a = None \<longrightarrow> strong_count s1 a = None)"
proof -
  from prun_mono [OF assms(2)] assms(3) have "length (shared s) < 2 ^ 31" by simp
  with start_agree assms(1) have "counts_agree s" by (rule prun_agree)
  then have agree: "int (attached s a) = owners_recorded (strong_count s a)"
    and nonzero: "strong_count s a \<noteq> Some 0"
    by (simp_all add: counts_agree_def)
  have "(strong_count s a = None) = (attached s a = 0)"
  proof (cases "strong_count s a")
    case None
    with agree show ?thesis by (simp add: owners_recorded_def)
  next
    case (Some c)
    with nonzero have "c \<noteq> 0" by simp
    then have "sint c \<noteq> 0" using word_eq_iff_signed [of c 0] by simp
    with agree Some show ?thesis by (simp add: owners_recorded_def)
  qed
  with prun_keeps_released [OF assms(2,4)] show ?thesis by simp
qed

section \<open>Properties of the library\<close>

text \<open>
  C1 fails on the code. In
  \<^verbatim>\<open>{ SharedPtr<int> a(new int(42)); SharedPtr<int> b(a); SharedPtr<int> c(std::move(a)); }\<close>
  the handles are destroyed in the order \<^verbatim>\<open>c\<close>, \<^verbatim>\<open>b\<close>, \<^verbatim>\<open>a\<close>. After the first five operations
  (construction, copy construction, move construction, two destructions) the block is
  released and the moved-from \<^verbatim>\<open>a\<close> is the only handle left. The sixth operation, the
  destruction of \<^verbatim>\<open>a\<close>, dereferences its null \<^verbatim>\<open>refCount_\<close>: at that point of the sequence
  there is no strong count that could equal the number of owners.
\<close>

theorem moved_from_owner_ends_the_sequence:
  "run (take 5 [Construct (Some 0), CopyConstruct 0, MoveConstruct 0,
                Destroy 2, Destroy 1, Destroy 0]) (start [Some (42::int)])
     = Inr \<lparr>objects = [None], counts = [None],
             shared = [Some \<lparr>SharedPtr.ptr = None, SharedPtr.refCount = None\<rparr>, None, None],
             weak = []\<rparr>
   \<and> run [Construct (Some 0), CopyConstruct 0, MoveConstruct 0,
          Destroy 2, Destroy 1, Destroy 0] (start [Some (42::int)])
     = Inl NullDereference"
  by (simp add: shared_ops)

text \<open>
  C2 fails on the code. After \<^verbatim>\<open>SharedPtr<int> sp(new int(42)); WeakPtr<int> wp(sp);\<close> and
  the destruction of \<^verbatim>\<open>sp\<close>, the control block is released although one live WeakPtr is
  still attached to it, and \<^verbatim>\<open>wp.expired()\<close> then reads the released block.
\<close>

theorem block_released_under_weak_observer:
  "prun [OnShared (Construct (Some 0)), OnWeak (WFromShared 0), OnShared (Destroy 0)]
        (start [Some (42::int)])
     = Inr \<lparr>objects = [None], counts = [None], shared = [None],
             weak = [Some \<lparr>WeakPtr.ptr = Some 0, WeakPtr.refCount = Some 0\<rparr>]\<rparr>
   \<and> strong_count \<lparr>objects = [None :: int option], counts = [None], shared = [None],
             weak = [Some \<lparr>WeakPtr.ptr = Some 0, WeakPtr.refCount = Some 0\<rparr>]\<rparr> 0 = None
   \<and> weak_attached \<lparr>objects = [None :: int option], counts = [None], shared = [None],
             weak = [Some \<lparr>WeakPtr.ptr = Some 0, WeakPtr.refCount = Some 0\<rparr>]\<rparr> 0 = 1
   \<and> expired 0 \<lparr>objects = [None :: int option], counts = [None], shared = [None],
             weak = [Some \<lparr>WeakPtr.ptr = Some 0, WeakPtr.refCount = Some 0\<rparr>]\<rparr> = Inl Dangling"
  by (simp add: shared_ops weak_ops weak_attached_def observes_def)

text \<open>
  C3, as the code has it. No event in the life of a WeakPtr (default construction,
  construction from a SharedPtr, copy construction, copy assignment, destruction) changes
  any control block: every counter, hence every strong count, and the number of SharedPtr
  handles attached to each block stay as they were. The number of live WeakPtr handles
  attached to a block is recorded nowhere.
\<close>

theorem weak_events_change_no_block:
  assumes "wstep w s = Inr s1"
  shows "counts s1 = counts s \<and> strong_count s1 a = strong_count s a
       \<and> attached s1 a = attached s a"
  using wstep_frame [OF assms] by (simp add: strong_count_def attached_def)

text \<open>
  C3, at a concrete state: destroying the only WeakPtr of a block leaves the block's counter
  at 1.
\<close>

theorem weak_events_change_no_block_witness:
  "\<exists>s1. wstep (WDestroy 0) \<lparr>objects = [Some (42::int)], counts = [Some 1],
        shared = [Some \<lparr>SharedPtr.ptr = Some 0, SharedPtr.refCount = Some 0\<rparr>],
        weak = [Some \<lparr>WeakPtr.ptr = Some 0, WeakPtr.refCount = Some 0\<rparr>]\<rparr> = Inr s1
     \<and> counts s1 = [Some 1] \<and> strong_count s1 0 = Some 1 \<and> attached s1 0 = 1
     \<and> weak_attached s1 0 = 0"
proof -
  let ?s = "\<lparr>objects = [Some (42::int)], counts = [Some 1],
        shared = [Some \<lparr>SharedPtr.ptr = Some 0, SharedPtr.refCount = Some 0\<rparr>],
        weak = [Some \<lparr>WeakPtr.ptr = Some 0, WeakPtr.refCount = Some 0\<rparr>]\<rparr>"
  let ?s1 = "?s\<lparr>weak := [None]\<rparr>"
  have r: "wstep (WDestroy 0) ?s = Inr ?s1" by (simp add: weak_ops)
  have "strong_count ?s 0 = Some 1" "attached ?s 0 = 1" "weak_attached ?s1 0 = 0"
    by (simp_all add: strong_count_def attached_def attached_to_def weak_attached_def observes_def)
  with weak_events_change_no_block [OF r, of 0] r show ?thesis
    by (intro exI [of _ ?s1]) simp
qed

text \<open>
  C3 as stated fails: constructing a WeakPtr from a SharedPtr raises the number of live
  WeakPtr handles attached to the block from 0 to 1, and the control blocks are the same
  before and after, so no count kept in the block was incremented.
\<close>

theorem weak_ctor_increments_nothing:
  "wstep (WFromShared 0) (SharedPtr_ctor (Some 0) (start [Some (42::int)]))
     = Inr \<lparr>objects = [Some 42], counts = [Some 1],
        shared = [Some \<lparr>SharedPtr.ptr = Some 0, SharedPtr.refCount = Some 0\<rparr>],
        weak = [Some \<lparr>WeakPtr.ptr = Some 0, WeakPtr.refCount = Some 0\<rparr>]\<rparr>
   \<and> counts (SharedPtr_ctor (Some 0) (start [Some (42::int)])) = [Some 1]
   \<and> weak_attached (SharedPtr_ctor (Some 0) (start [Some (42::int)])) 0 = 0
   \<and> weak_attached \<lparr>objects = [Some (42::int)], counts = [Some 1],
        shared = [Some \<lparr>SharedPtr.ptr = Some 0, SharedPtr.refCount = Some 0\<rparr>],
        weak = [Some \<lparr>WeakPtr.ptr = Some 0, WeakPtr.refCount = Some 0\<rparr>]\<rparr> 0 = 1"
  by (simp add: shared_ops weak_ops weak_attached_def observes_def)

text \<open>
  C4 fails on the code. After \<^verbatim>\<open>SharedPtr<int> sp(new int(42)); WeakPtr<int> wp(sp);\<close> and the
  destruction of \<^verbatim>\<open>sp\<close>, the last owner, \<^verbatim>\<open>wp.lock()\<close> does not return the null SharedPtr: its
  call of \<^verbatim>\<open>expired()\<close> dereferences the released control block. This holds whatever the
  conversion \<^verbatim>\<open>SharedPtr<T>(*this)\<close> of the other branch does.
\<close>

theorem lock_after_last_owner_faults:
  "and_then (and_then (WeakPtr_from_shared 0 (SharedPtr_ctor (Some 0) (start [Some (42::int)])))
        (SharedPtr_dtor 0)) (lock from_weak 0) = Inl Dangling"
  by (simp add: and_then_def shared_ops weak_ops)

text \<open>
  C5 fails on the code. A moved-from SharedPtr has \<^verbatim>\<open>refCount_ == nullptr\<close>, and its
  destructor calls \<^verbatim>\<open>decrementAndDelete()\<close>, which dereferences \<^verbatim>\<open>refCount_\<close> without a null
  check: \<^verbatim>\<open>SharedPtr<int> a(new int(42)); SharedPtr<int> b(std::move(a));\<close> followed by the
  destruction of \<^verbatim>\<open>a\<close>.
\<close>

theorem destroying_moved_from_SharedPtr_faults:
  "run [Construct (Some 0), MoveConstruct 0, Destroy 0] (start [Some (42::int)])
     = Inl NullDereference"
  by (simp add: shared_ops)

text \<open>
  C7. \<^verbatim>\<open>make_shared<T>(args...)\<close> creates an object whose state is that of the direct
  construction \<^verbatim>\<open>T(args...)\<close>, every argument forwarded with its value category, and returns
  a SharedPtr to it that is attached to a new control block with strong count 1.
\<close>

theorem make_shared_constructs_and_owns:
  "objects (make_shared T args s) ! length (objects s) = Some (T args)
   \<and> shared_at (length (shared s)) (make_shared T args s)
       = Inr \<lparr>SharedPtr.ptr = Some (length (objects s)),
              SharedPtr.refCount = Some (length (counts s))\<rparr>
   \<and> strong_count (make_shared T args s) (length (counts s)) = Some 1
   \<and> use_count (length (shared s)) (make_shared T args s) = Inr 1
   \<and> map forward args = args"
  by (simp add: make_shared_def shared_ops forward_id)






text \<open>
  C10. The constructor of SharedPtr from a raw pointer \<open>p\<close> (the null pointer for a
  default-constructed SharedPtr) allocates a control block that did not exist before and
  sets its counter to 1, so \<^verbatim>\<open>use_count()\<close> of the new handle is 1. A SharedPtr constructed
  later, after any run of SharedPtr and WeakPtr operations, gets a control block at another
  address, with \<^verbatim>\<open>use_count()\<close> 1 again.
\<close>

theorem SharedPtr_ctor_fresh_block:
  assumes "prun xs (SharedPtr_ctor p s) = Inr s1"
  shows "strong_count s (length (counts s)) = None
     \<and> shared_at (length (shared s)) (SharedPtr_ctor p s)
         = Inr \<lparr>SharedPtr.ptr = p, SharedPtr.refCount = Some (length (counts s))\<rparr>
     \<and> use_count (length (shared s)) (SharedPtr_ctor p s) = Inr 1
     \<and> shared_at (length (shared s1)) (SharedPtr_ctor q s1)
         = Inr \<lparr>SharedPtr.ptr = q, SharedPtr.refCount = Some (length (counts s1))\<rparr>
     \<and> use_count (length (shared s1)) (SharedPtr_ctor q s1) = Inr 1
     \<and> length (counts s) < length (counts s1)"
proof -
  have "length (counts (SharedPtr_ctor p s)) = length (counts s) + 1"
    by (simp add: SharedPtr_ctor_def)
  with prun_mono [OF assms] have "length (counts s) < length (counts s1)" by simp
  then show ?thesis
    by (simp add: SharedPtr_ctor_def shared_at_def use_count_def strong_count_def)
qed

text \<open>
  C10, at a concrete program: a default-constructed SharedPtr, a copy of it, and a second
  default-constructed SharedPtr, whose block is at address 1 and not at 0.
\<close>

theorem SharedPtr_ctor_fresh_block_witness:
  "prun [OnShared (CopyConstruct 0)] (SharedPtr_ctor None (start ([] :: int option list)))
     = Inr \<lparr>objects = [], counts = [Some 2],
             shared = [Some \<lparr>SharedPtr.ptr = None, SharedPtr.refCount = Some 0\<rparr>,
                       Some \<lparr>SharedPtr.ptr = None, SharedPtr.refCount = Some 0\<rparr>], weak = []\<rparr>
   \<and> use_count 0 (SharedPtr_ctor None (start ([] :: int option list))) = Inr 1
   \<and> shared_at 2 (SharedPtr_ctor None \<lparr>objects = ([] :: int option list), counts = [Some 2],
             shared = [Some \<lparr>SharedPtr.ptr = None, SharedPtr.refCount = Some 0\<rparr>,
                       Some \<lparr>SharedPtr.ptr = None, SharedPtr.refCount = Some 0\<rparr>], weak = []\<rparr>)
       = Inr \<lparr>SharedPtr.ptr = None, SharedPtr.refCount = Some 1\<rparr>
   \<and> use_count 2 (SharedPtr_ctor None \<lparr>objects = ([] :: int option list), counts = [Some 2],
             shared = [Some \<lparr>SharedPtr.ptr = None, SharedPtr.refCount = Some 0\<rparr>,
                       Some \<lparr>SharedPtr.ptr = None, SharedPtr.refCount = Some 0\<rparr>], weak = []\<rparr>)
       = Inr 1"
proof -
  let ?s1 = "\<lparr>objects = ([] :: int option list), counts = [Some 2],
             shared = [Some \<lparr>SharedPtr.ptr = None, SharedPtr.refCount = Some 0\<rparr>,
                       Some \<lparr>SharedPtr.ptr = None, SharedPtr.refCount = Some 0\<rparr>], weak = []\<rparr>"
  have r: "prun [OnShared (CopyConstruct 0)] (SharedPtr_ctor None (start ([] :: int option list)))
             = Inr ?s1"
    by (simp add: shared_ops)
  from SharedPtr_ctor_fresh_block [OF r, of None] r show ?thesis
    by (simp add: start_def numeral_2_eq_2)
qed

end
